theory Spec2Isabelle
  imports Complex_Main "HOL-Library.Multiset"
begin

section \<open>Numbers, points and rectangles (src/data/types.ts)\<close>

text \<open>
  A JavaScript number is an IEEE 754 double (binary64). The scoring arithmetic is
  modelled in doubles, because its comparisons, its floors and ceilings and its final
  rounding depend on the last bit of a product: a number is a \<open>real\<close> that is a double,
  \<open>fl\<close> rounds a real to the nearest double, and each \<open>+\<close>, \<open>-\<close>, \<open>*\<close> and \<open>/\<close> of the
  scoring functions is the exact operation followed by \<open>fl\<close>. Results of magnitude
  \<open>2^1024\<close> and more (\<open>Infinity\<close> in the engine) and \<open>NaN\<close> are outside the model.
  \<open>Math.floor\<close>, \<open>Math.ceil\<close> and \<open>Math.round\<close> are exact on doubles; counters and rounded
  scores are \<open>nat\<close> and \<open>int\<close>, which doubles hold exactly below \<open>2^53\<close>. The timer, the
  layout, the coordinate mapper and the buttons are modelled in exact arithmetic; the
  rounding of their results is outside the model.
\<close>

text \<open>Rounding to the nearest integer, a tie going to the even one.\<close>

definition roundEven :: "real \<Rightarrow> int" where
  "roundEven x =
     (let n = \<lfloor>x\<rfloor>; d = x - of_int n
      in if d < 1 / 2 then n else if 1 / 2 < d then n + 1 else if even n then n else n + 1)"

text \<open>
  The binary exponent of a number: \<open>e\<close> with \<open>2^e \<le> |x| < 2^(e + 1)\<close>, found by
  halving or doubling, and kept within \<open>-1022 .. 1023\<close>, the exponents of binary64 (the
  subnormal numbers share the exponent \<open>-1022\<close>).
\<close>

function exponentUp :: "real \<Rightarrow> int \<Rightarrow> int" where
  "exponentUp x e = (if 2 \<le> x \<and> e < 1023 then exponentUp (x / 2) (e + 1) else e)"
  by pat_completeness auto
termination
  by (relation "measure (\<lambda>(x, e). nat (1023 - e))") auto

function exponentDown :: "real \<Rightarrow> int \<Rightarrow> int" where
  "exponentDown x e = (if x < 1 \<and> - 1022 < e then exponentDown (x * 2) (e - 1) else e)"
  by pat_completeness auto
termination
  by (relation "measure (\<lambda>(x, e). nat (e + 1022))") auto

definition exponent :: "real \<Rightarrow> int" where
  "exponent x = (if 1 \<le> \<bar>x\<bar> then exponentUp \<bar>x\<bar> 0 else exponentDown \<bar>x\<bar> 0)"

text \<open>
  The distance between neighbouring doubles around \<open>x\<close> (a significand of 53 bits), and
  the double nearest to \<open>x\<close>: \<open>x\<close> rounded to a multiple of that distance.
\<close>

definition ulp :: "real \<Rightarrow> real" where
  "ulp x = 2 powi (exponent x - 52)"

definition fl :: "real \<Rightarrow> real" where
  "fl x = (if x = 0 then 0 else of_int (roundEven (x / ulp x)) * ulp x)"

definition isDouble :: "real \<Rightarrow> bool" where
  "isDouble x \<longleftrightarrow> fl x = x"

text \<open>The four operations on doubles.\<close>

definition fadd :: "real \<Rightarrow> real \<Rightarrow> real" where
  "fadd a b = fl (a + b)"

definition fsub :: "real \<Rightarrow> real \<Rightarrow> real" where
  "fsub a b = fl (a - b)"

definition fmul :: "real \<Rightarrow> real \<Rightarrow> real" where
  "fmul a b = fl (a * b)"

definition fdiv :: "real \<Rightarrow> real \<Rightarrow> real" where
  "fdiv a b = fl (a / b)"

text \<open>\<open>Math.round\<close>: the nearest integer, a tie going up.\<close>

definition Math_round :: "real \<Rightarrow> int" where
  "Math_round v = \<lfloor>v + 1 / 2\<rfloor>"

record point =
  pt_x :: real
  pt_y :: real

record maskRect =
  rx :: real
  ry :: real
  rwidth :: real
  rheight :: real

record redactionMask =
  prompt :: string
  imageSrc :: string
  targetRects :: "maskRect list"

section \<open>The scene's types (src/game/GameScene.ts)\<close>

record documentLayout =
  scale :: real
  offsetX :: real
  offsetY :: real
  drawWidth :: real
  drawHeight :: real

record uiButton =
  btn_x :: real
  btn_y :: real
  btn_width :: real
  btn_height :: real
  btn_text :: string

datatype roundPhase = Prompt | Redacting | Scoring

text \<open>
  The exceptions the engine can raise: \<open>TypeError\<close> for a property read on \<open>undefined\<close>
  (a field declared with \<open>!\<close> and not assigned yet, an array read past its end),
  \<open>IndexSizeError\<close>, which \<open>getImageData\<close> raises for an empty source rectangle, and
  \<open>RangeError\<close> for a call that the call stack has no room for.
\<close>

datatype error = TypeError | IndexSizeError | RangeError

text \<open>
  The document image as the loader delivers it: its source and its natural size, 0 by 0
  until it has loaded.
\<close>

record image =
  img_src :: string
  img_width :: nat
  img_height :: nat

text \<open>
  The off-screen coverage canvas: its size and its bitmap, the RGBA bytes in row-major
  order (\<open>cv_bytes c k\<close> for \<open>k < 4 * cv_width c * cv_height c\<close>; byte \<open>4 * (y * w + x) + 3\<close>
  is the alpha of pixel \<open>(x, y)\<close>).
\<close>

record canvas =
  cv_width :: nat
  cv_height :: nat
  cv_bytes :: "nat \<Rightarrow> nat"

text \<open>\<open>ctx.clearRect(0, 0, canvas.width, canvas.height)\<close>: every byte becomes 0.\<close>

definition clearRect :: "canvas \<Rightarrow> canvas" where
  "clearRect c = c\<lparr>cv_bytes := (\<lambda>k. 0)\<rparr>"

text \<open>
  Assigning \<open>canvas.width\<close> and \<open>canvas.height\<close> resizes the canvas and resets its bitmap
  to transparent black.
\<close>

definition resizeCanvas :: "nat \<Rightarrow> nat \<Rightarrow> canvas" where
  "resizeCanvas w h = \<lparr>cv_width = w, cv_height = h, cv_bytes = (\<lambda>k. 0)\<rparr>"

text \<open>
  \<open>ctx.getImageData(0, 0, canvas.width, canvas.height).data\<close>: a typed array of
  \<open>4 * w * h\<close> bytes for a canvas of \<open>w\<close> by \<open>h\<close> pixels (\<open>pixelData\<close>). A read \<open>data[k]\<close>
  outside the array is \<open>undefined\<close> (\<open>None\<close>). The call raises when the width or the
  height is 0.
\<close>

type_synonym imageData = "int \<Rightarrow> nat option"

definition pixelData :: "canvas \<Rightarrow> imageData" where
  "pixelData c k =
     (if 0 \<le> k \<and> k < 4 * int (cv_width c) * int (cv_height c) then Some (cv_bytes c (nat k))
      else None)"

definition getImageData :: "canvas \<Rightarrow> error + imageData" where
  "getImageData c =
     (if cv_width c = 0 \<or> cv_height c = 0 then Inl IndexSizeError else Inr (pixelData c))"

text \<open>
  \<open>ctx.arc(cx, cy, r, 0, 2 * Math.PI); ctx.fill()\<close> is the browser's rasterizer: it is
  not code of the repository, so the scene takes it as a parameter, a function of the
  centre, the radius and the canvas it paints into.
\<close>

type_synonym rasterizer = "real \<Rightarrow> real \<Rightarrow> real \<Rightarrow> canvas \<Rightarrow> canvas"

text \<open>
  The fields of \<open>GameScene\<close> that the round engine reads or writes. The three display
  layers are the caller's surfaces and are not modelled. \<open>onExit_calls\<close> counts the
  calls \<open>this.onExit()\<close> that the scene itself makes, all of them in \<open>exitGame\<close>.
\<close>

record gameScene =
  debugMode :: bool
  docImage :: image
  imageLoaded :: bool
  layout :: "documentLayout option"
  strokes :: "point list"
  isDrawing :: bool
  coverageCanvas :: canvas
  phase :: roundPhase
  timer :: real
  timeLimit :: real
  roundScore :: int
  totalScore :: int
  needsRedraw :: bool
  masks :: "redactionMask list"
  currentMaskIndex :: nat
  prompt_text :: string
  maskCurrent :: "redactionMask option"
  readyButton :: "uiButton option"
  doneButton :: "uiButton option"
  continueButton :: "uiButton option"
  exitButton :: "uiButton option"
  onExit_calls :: nat

definition markerRadiusNorm :: real where
  "markerRadiusNorm = 12 / 1000"

section \<open>Coordinate mapping\<close>

text \<open>\<open>computeLayout\<close>, for a container of size \<open>rw\<close> by \<open>rh\<close> (the bounding client rect).\<close>

definition computeLayout :: "real \<Rightarrow> real \<Rightarrow> image \<Rightarrow> documentLayout" where
  "computeLayout rw rh img =
     (let sc = min (rw / real (img_width img)) (rh / real (img_height img));
          dw = real (img_width img) * sc;
          dh = real (img_height img) * sc
      in \<lparr>scale = sc, offsetX = (rw - dw) / 2, offsetY = (rh - dh) / 2,
          drawWidth = dw, drawHeight = dh\<rparr>)"

text \<open>\<open>screenToDocument\<close> and \<open>documentToScreen\<close>, as functions of the layout they read.\<close>

definition screenToDocument :: "documentLayout \<Rightarrow> point \<Rightarrow> point option" where
  "screenToDocument L p =
     (let x = (pt_x p - offsetX L) / drawWidth L;
          y = (pt_y p - offsetY L) / drawHeight L
      in if x < 0 \<or> x > 1 \<or> y < 0 \<or> y > 1 then None else Some \<lparr>pt_x = x, pt_y = y\<rparr>)"

definition documentToScreen :: "documentLayout \<Rightarrow> point \<Rightarrow> point" where
  "documentToScreen L p =
     \<lparr>pt_x = pt_x p * drawWidth L + offsetX L, pt_y = pt_y p * drawHeight L + offsetY L\<rparr>"

definition pointInRect :: "point \<Rightarrow> uiButton \<Rightarrow> bool" where
  "pointInRect p r \<longleftrightarrow>
     pt_x p \<ge> btn_x r \<and> pt_x p \<le> btn_x r + btn_width r \<and>
     pt_y p \<ge> btn_y r \<and> pt_y p \<le> btn_y r + btn_height r"

text \<open>\<open>this.button && this.pointInRect(p, this.button)\<close> for a button that may be unset.\<close>

definition hits :: "uiButton option \<Rightarrow> point \<Rightarrow> bool" where
  "hits b p = (case b of None \<Rightarrow> False | Some r \<Rightarrow> pointInRect p r)"

section \<open>Coverage and scoring\<close>

definition drawCoveragePoint :: "rasterizer \<Rightarrow> point \<Rightarrow> canvas \<Rightarrow> canvas" where
  "drawCoveragePoint fill p c =
     fill (pt_x p * real (cv_width c)) (pt_y p * real (cv_height c))
       (markerRadiusNorm * real (cv_width c)) c"

definition step :: int where
  "step = 4"

text \<open>
  The test of the painted pass: is pixel \<open>(x, y)\<close> inside some target rect? The rect's
  edges are scaled to the raster, \<open>r.x * w\<close> and \<open>(r.x + r.width) * w\<close>, in doubles.
\<close>

definition inside :: "maskRect list \<Rightarrow> nat \<Rightarrow> nat \<Rightarrow> int \<Rightarrow> int \<Rightarrow> bool" where
  "inside rs w h x y =
     list_ex (\<lambda>r. real_of_int x \<ge> fmul (rx r) (real w) \<and> real_of_int y \<ge> fmul (ry r) (real h) \<and>
                  real_of_int x \<le> fmul (fadd (rx r) (rwidth r)) (real w) \<and>
                  real_of_int y \<le> fmul (fadd (ry r) (rheight r)) (real h)) rs"

text \<open>
  The painted pass: the inner loop over \<open>x\<close> and the outer loop over \<open>y\<close>, carrying the
  counters \<open>(correct, falsePositive)\<close>. \<open>data[i + 3] === 0\<close> holds for a byte that is
  there and is 0.
\<close>

function paintedRow ::
  "imageData \<Rightarrow> maskRect list \<Rightarrow> nat \<Rightarrow> nat \<Rightarrow> int \<Rightarrow> int \<Rightarrow> nat \<times> nat \<Rightarrow> nat \<times> nat" where
  "paintedRow data rs w h y x (correct, falsePositive) =
     (if x < int w then
        (if data ((y * int w + x) * 4 + 3) = Some 0
         then paintedRow data rs w h y (x + step) (correct, falsePositive)
         else if inside rs w h x y
         then paintedRow data rs w h y (x + step) (correct + 1, falsePositive)
         else paintedRow data rs w h y (x + step) (correct, falsePositive + 1))
      else (correct, falsePositive))"
  by pat_completeness auto
termination
  by (relation "measure (\<lambda>(data, rs, w, h, y, x, acc). nat (int w - x))") (auto simp: step_def)

function paintedRows ::
  "imageData \<Rightarrow> maskRect list \<Rightarrow> nat \<Rightarrow> nat \<Rightarrow> int \<Rightarrow> nat \<times> nat \<Rightarrow> nat \<times> nat" where
  "paintedRows data rs w h y acc =
     (if y < int h then paintedRows data rs w h (y + step) (paintedRow data rs w h y 0 acc)
      else acc)"
  by pat_completeness auto
termination
  by (relation "measure (\<lambda>(data, rs, w, h, y, acc). nat (int h - y))") (auto simp: step_def)

text \<open>
  The missed pass: for one rect, the loops over its pixel range, from the floor of the
  scaled left and top edges to the ceiling of the scaled right and bottom edges. The
  loops read \<open>data[i + 3]\<close> for every sample, also where the sample lies outside the
  raster.
\<close>

function missedRow :: "imageData \<Rightarrow> nat \<Rightarrow> int \<Rightarrow> int \<Rightarrow> int \<Rightarrow> nat \<Rightarrow> nat" where
  "missedRow data w y endX x missed =
     (if x < endX then
        missedRow data w y endX (x + step)
          (if data ((y * int w + x) * 4 + 3) = Some 0 then missed + 1 else missed)
      else missed)"
  by pat_completeness auto
termination
  by (relation "measure (\<lambda>(data, w, y, endX, x, missed). nat (endX - x))") (auto simp: step_def)

function missedRows :: "imageData \<Rightarrow> nat \<Rightarrow> int \<Rightarrow> int \<Rightarrow> int \<Rightarrow> int \<Rightarrow> nat \<Rightarrow> nat" where
  "missedRows data w startX endX endY y missed =
     (if y < endY then
        missedRows data w startX endX endY (y + step) (missedRow data w y endX startX missed)
      else missed)"
  by pat_completeness auto
termination
  by (relation "measure (\<lambda>(data, w, startX, endX, endY, y, missed). nat (endY - y))") (auto simp: step_def)

definition missedRect :: "imageData \<Rightarrow> nat \<Rightarrow> nat \<Rightarrow> maskRect \<Rightarrow> nat \<Rightarrow> nat" where
  "missedRect data w h r missed =
     (let startX = \<lfloor>fmul (rx r) (real w)\<rfloor>;
          endX = \<lceil>fmul (fadd (rx r) (rwidth r)) (real w)\<rceil>;
          startY = \<lfloor>fmul (ry r) (real h)\<rfloor>;
          endY = \<lceil>fmul (fadd (ry r) (rheight r)) (real h)\<rceil>
      in missedRows data w startX endX endY startY missed)"

primrec missedRects :: "imageData \<Rightarrow> nat \<Rightarrow> nat \<Rightarrow> maskRect list \<Rightarrow> nat \<Rightarrow> nat" where
  "missedRects data w h [] missed = missed"
| "missedRects data w h (r # rs) missed = missedRects data w h rs (missedRect data w h r missed)"

text \<open>
  \<open>calculateScore\<close>: the two passes, the weighted sum
  \<open>correct * 20 - falsePositive * 1.5 - missed * 0.5\<close>, the time bonus of the Scoring phase
  (\<open>roundScore += roundScore * timeFactor * 0.5\<close>), and the final
  \<open>Math.max(0, Math.round(roundScore))\<close>.
\<close>

definition calculateScore :: "gameScene \<Rightarrow> error + int" where
  "calculateScore s =
     (case maskCurrent s of
        None \<Rightarrow> Inl TypeError
      | Some m \<Rightarrow>
          (let w = cv_width (coverageCanvas s); h = cv_height (coverageCanvas s)
           in case getImageData (coverageCanvas s) of
                Inl e \<Rightarrow> Inl e
              | Inr data \<Rightarrow>
                  (let (correct, falsePositive) = paintedRows data (targetRects m) w h 0 (0, 0);
                       missed = missedRects data w h (targetRects m) 0;
                       roundScore0 =
                         fsub (fsub (fmul (real correct) 20) (fmul (real falsePositive) (3 / 2)))
                           (fmul (real missed) (1 / 2));
                       roundScore1 =
                         (if phase s = Scoring
                          then (let timeFactor = max 0 (fdiv (timer s) (timeLimit s))
                                in fadd roundScore0 (fmul (fmul roundScore0 timeFactor) (1 / 2)))
                          else roundScore0)
                   in Inr (max 0 (Math_round roundScore1)))))"

section \<open>Phase transitions\<close>

definition startRedaction :: "gameScene \<Rightarrow> gameScene" where
  "startRedaction s =
     s\<lparr>phase := Redacting, timer := timeLimit s, strokes := [],
       coverageCanvas := clearRect (coverageCanvas s), needsRedraw := True\<rparr>"

text \<open>
  \<open>finishRound\<close> sets the phase first, so \<open>calculateScore\<close> always runs in the Scoring
  phase. An exception of \<open>calculateScore\<close> leaves the method.
\<close>

definition finishRound :: "gameScene \<Rightarrow> error + gameScene" where
  "finishRound s =
     (let s1 = s\<lparr>phase := Scoring\<rparr>
      in case calculateScore s1 of
           Inl e \<Rightarrow> Inl e
         | Inr sc \<Rightarrow>
             Inr (s1\<lparr>roundScore := sc, totalScore := totalScore s1 + sc, needsRedraw := True\<rparr>))"

text \<open>
  \<open>loadDocument\<close> registers the \<open>onload\<close> handler and starts loading; the handler runs
  later, as the event \<open>onload\<close> below, with the natural size of the loaded image and the
  size of the document layer's bounding client rect at that moment.
\<close>

definition loadDocument :: "string \<Rightarrow> gameScene \<Rightarrow> gameScene" where
  "loadDocument src s = s\<lparr>docImage := (docImage s)\<lparr>img_src := src\<rparr>\<rparr>"

definition onload :: "nat \<Rightarrow> nat \<Rightarrow> real \<Rightarrow> real \<Rightarrow> gameScene \<Rightarrow> gameScene" where
  "onload natW natH rw rh s =
     (let img = (docImage s)\<lparr>img_width := natW, img_height := natH\<rparr>
      in s\<lparr>docImage := img, imageLoaded := True,
           coverageCanvas := resizeCanvas (img_width img) (img_height img),
           layout := Some (computeLayout rw rh img), needsRedraw := True\<rparr>)"

text \<open>
  \<open>loadNextMask\<close>: \<open>this.masks[this.currentMaskIndex++]\<close> is \<open>undefined\<close> past the end of
  the array (only an empty catalogue gets there, after the wrap to 0), and the read of
  its \<open>prompt\<close> raises.
\<close>

definition loadNextMask :: "gameScene \<Rightarrow> error + gameScene" where
  "loadNextMask s =
     (let idx = (if currentMaskIndex s \<ge> length (masks s) then 0 else currentMaskIndex s)
      in if idx < length (masks s) then
           (let m = masks s ! idx;
                s1 = s\<lparr>currentMaskIndex := idx + 1, maskCurrent := Some m, prompt_text := prompt m\<rparr>;
                s2 = loadDocument (imageSrc m) s1
            in Inr (s2\<lparr>phase := Prompt, strokes := [],
                       coverageCanvas := clearRect (coverageCanvas s2), needsRedraw := True\<rparr>))
         else Inl TypeError)"

definition exitGame :: "gameScene \<Rightarrow> gameScene" where
  "exitGame s =
     s\<lparr>roundScore := 0, totalScore := 0, strokes := [], phase := Prompt,
       coverageCanvas := clearRect (coverageCanvas s), needsRedraw := True,
       onExit_calls := onExit_calls s + 1\<rparr>"

definition resetGame :: "gameScene \<Rightarrow> error + gameScene" where
  "resetGame s =
     loadNextMask
       (s\<lparr>roundScore := 0, totalScore := 0, currentMaskIndex := 0, strokes := [],
          coverageCanvas := clearRect (coverageCanvas s)\<rparr>)"

text \<open>
  The constructor: the field initialisers, the catalogue in the order the random sort
  left it (\<open>[...masks].sort(() => Math.random() - 0.5)\<close>, some rearrangement of the
  catalogue that the engine's sort picks), and the first \<open>loadNextMask\<close>. A canvas
  element starts 300 by 150.
\<close>

definition new_GameScene :: "redactionMask list \<Rightarrow> error + gameScene" where
  "new_GameScene sortedMasks =
     loadNextMask
       \<lparr>debugMode = False,
        docImage = \<lparr>img_src = [], img_width = 0, img_height = 0\<rparr>,
        imageLoaded = False, layout = None, strokes = [], isDrawing = False,
        coverageCanvas = resizeCanvas 300 150,
        phase = Prompt, timer = 0, timeLimit = 30, roundScore = 0, totalScore = 0,
        needsRedraw = True, masks = sortedMasks, currentMaskIndex = 0, prompt_text = [],
        maskCurrent = None, readyButton = None, doneButton = None, continueButton = None,
        exitButton = None, onExit_calls = 0\<rparr>"

section \<open>Drawing helpers\<close>

text \<open>\<open>this.layout\<close> is \<open>undefined\<close> until the first image has loaded; destructuring it raises.\<close>

definition startStroke :: "rasterizer \<Rightarrow> point \<Rightarrow> gameScene \<Rightarrow> error + gameScene" where
  "startStroke fill p s =
     (case layout s of
        None \<Rightarrow> Inl TypeError
      | Some L \<Rightarrow>
          (case screenToDocument L p of
             None \<Rightarrow> Inr s
           | Some docPoint \<Rightarrow>
               Inr (s\<lparr>isDrawing := True, strokes := strokes s @ [docPoint],
                      coverageCanvas := drawCoveragePoint fill docPoint (coverageCanvas s),
                      needsRedraw := True\<rparr>)))"

definition addStroke :: "rasterizer \<Rightarrow> point \<Rightarrow> gameScene \<Rightarrow> error + gameScene" where
  "addStroke fill p s =
     (case layout s of
        None \<Rightarrow> Inl TypeError
      | Some L \<Rightarrow>
          (case screenToDocument L p of
             None \<Rightarrow> Inr s
           | Some docPoint \<Rightarrow>
               Inr (s\<lparr>strokes := strokes s @ [docPoint],
                      coverageCanvas := drawCoveragePoint fill docPoint (coverageCanvas s),
                      needsRedraw := True\<rparr>)))"

section \<open>Lifecycle and input\<close>

definition update :: "real \<Rightarrow> gameScene \<Rightarrow> error + gameScene" where
  "update dt s =
     (if phase s = Redacting then
        (let prev = \<lceil>timer s\<rceil>;
             s1 = s\<lparr>timer := timer s - dt\<rparr>
         in case (if timer s1 \<le> 0 then finishRound (s1\<lparr>timer := 0\<rparr>) else Inr s1) of
              Inl e \<Rightarrow> Inl e
            | Inr s2 \<Rightarrow> Inr (if \<lceil>timer s2\<rceil> \<noteq> prev then s2\<lparr>needsRedraw := True\<rparr> else s2))
      else Inr s)"

definition onResize :: "real \<Rightarrow> real \<Rightarrow> gameScene \<Rightarrow> gameScene" where
  "onResize rw rh s =
     (if \<not> imageLoaded s then s
      else s\<lparr>layout := Some (computeLayout rw rh (docImage s)), needsRedraw := True\<rparr>)"

definition onPointerDown :: "rasterizer \<Rightarrow> point \<Rightarrow> gameScene \<Rightarrow> error + gameScene" where
  "onPointerDown fill p s =
     (case phase s of
        Prompt \<Rightarrow> if hits (readyButton s) p then Inr (startRedaction s) else Inr s
      | Redacting \<Rightarrow> if hits (doneButton s) p then finishRound s else startStroke fill p s
      | Scoring \<Rightarrow>
          if hits (continueButton s) p then loadNextMask s
          else if hits (exitButton s) p then Inr (exitGame s)
          else Inr s)"

definition onPointerMove :: "rasterizer \<Rightarrow> point \<Rightarrow> gameScene \<Rightarrow> error + gameScene" where
  "onPointerMove fill p s =
     (if \<not> isDrawing s \<or> phase s \<noteq> Redacting then Inr s else addStroke fill p s)"

definition onPointerUp :: "gameScene \<Rightarrow> gameScene" where
  "onPointerUp s = s\<lparr>isDrawing := False\<rparr>"

text \<open>
  The events the host delivers to the scene (the frame tick, the pointer, a resize, the
  loaded image, and the menu's \<open>resetGame\<close>), and a run of them; a run ends at the first
  exception.
\<close>

datatype event =
    Update real
  | PointerDown point
  | PointerMove point
  | PointerUp
  | Resize real real
  | ImageLoaded nat nat real real
  | Reset

fun dispatch :: "rasterizer \<Rightarrow> event \<Rightarrow> gameScene \<Rightarrow> error + gameScene" where
  "dispatch fill (Update dt) s = update dt s"
| "dispatch fill (PointerDown p) s = onPointerDown fill p s"
| "dispatch fill (PointerMove p) s = onPointerMove fill p s"
| "dispatch fill PointerUp s = Inr (onPointerUp s)"
| "dispatch fill (Resize rw rh) s = Inr (onResize rw rh s)"
| "dispatch fill (ImageLoaded natW natH rw rh) s = Inr (onload natW natH rw rh s)"
| "dispatch fill Reset s = resetGame s"

fun run :: "rasterizer \<Rightarrow> event list \<Rightarrow> gameScene \<Rightarrow> error + gameScene" where
  "run fill [] s = Inr s"
| "run fill (e # es) s = (case dispatch fill e s of Inl err \<Rightarrow> Inl err | Inr s' \<Rightarrow> run fill es s')"

section \<open>The buttons (drawUI)\<close>

text \<open>
  \<open>drawButton\<close> draws a button of 140 by 40 around a centre and returns its rectangle.
  \<open>drawUI\<close> places the buttons of the current phase on the UI layer, of width \<open>w\<close> and
  height \<open>h\<close>, and stores them in the scene; what it draws goes to the layer, which is
  not modelled. \<open>render\<close> calls it when the image has loaded and a redraw is due.
\<close>

definition drawButton :: "string \<Rightarrow> real \<Rightarrow> real \<Rightarrow> uiButton" where
  "drawButton txt cx cy =
     \<lparr>btn_x = cx - 140 / 2, btn_y = cy - 40 / 2, btn_width = 140, btn_height = 40, btn_text = txt\<rparr>"

definition drawUI :: "real \<Rightarrow> real \<Rightarrow> gameScene \<Rightarrow> gameScene" where
  "drawUI w h s =
     (case phase s of
        Prompt \<Rightarrow> s\<lparr>readyButton := Some (drawButton ''READY'' (w / 2) (h * (35 / 100)))\<rparr>
      | Redacting \<Rightarrow> s\<lparr>doneButton := Some (drawButton ''DONE'' (w - 80) 30)\<rparr>
      | Scoring \<Rightarrow>
          s\<lparr>continueButton := Some (drawButton ''CONTINUE'' (w / 2) (h * (1 / 2))),
            exitButton := Some (drawButton ''EXIT'' (w / 2) (h * (57 / 100)))\<rparr>)"

definition render :: "real \<Rightarrow> real \<Rightarrow> gameScene \<Rightarrow> gameScene" where
  "render w h s =
     (if \<not> imageLoaded s \<or> \<not> needsRedraw s then s else (drawUI w h s)\<lparr>needsRedraw := False\<rparr>)"

section \<open>The program as the entry point wires it (main.ts, SceneManager.ts)\<close>

text \<open>
  The entry point creates the game scene with the callback
  \<open>() => { game.sceneManager.set(menuScene) }\<close> and the menu scene; the scene manager holds
  the current scene. The game scene stores the callback in its property \<open>onExit\<close>, which
  is also the name of the hook of the \<open>Scene\<close> interface: \<open>SceneManager.set\<close> calls
  \<open>this.current.onExit()\<close> when the current scene has that property, and then makes the
  new scene current. The menu scene has no \<open>onExit\<close>, and no scene has an \<open>onEnter\<close>.
  \<open>app_notified\<close> counts the times the callback has been entered.
\<close>

datatype sceneId = MenuSceneId | GameSceneId

record app =
  app_scene :: gameScene
  app_current :: "sceneId option"
  app_notified :: nat

text \<open>
  A call either returns or throws, and leaves a state in both cases. A call needs room
  on the call stack: \<open>d\<close> is the number of nested calls there is room for, and a call
  without room raises \<open>RangeError\<close> in its caller. \<open>set\<close> is an \<open>async\<close> method: once it
  has been entered, an exception in its body does not leave the call but rejects the
  promise that the call returns, which the callback drops.
\<close>

datatype outcome = Returned app | Thrown error app

fun SceneManager_set :: "nat \<Rightarrow> sceneId \<Rightarrow> app \<Rightarrow> outcome"
  and onExit_callback :: "nat \<Rightarrow> app \<Rightarrow> outcome" where
  "SceneManager_set 0 scene a = Thrown RangeError a"
| "SceneManager_set (Suc d) scene a =
     (case app_current a of
        Some GameSceneId \<Rightarrow>
          (case onExit_callback d a of
             Thrown e a' \<Rightarrow> Returned a'
           | Returned a' \<Rightarrow> Returned (a'\<lparr>app_current := Some scene\<rparr>))
      | _ \<Rightarrow> Returned (a\<lparr>app_current := Some scene\<rparr>))"
| "onExit_callback 0 a = Thrown RangeError a"
| "onExit_callback (Suc d) a =
     SceneManager_set d MenuSceneId (a\<lparr>app_notified := app_notified a + 1\<rparr>)"

text \<open>
  \<open>exitGame\<close> in the program: the scene resets its fields and calls \<open>this.onExit()\<close>, the
  callback.
\<close>

definition wired_exitGame :: "nat \<Rightarrow> app \<Rightarrow> outcome" where
  "wired_exitGame d a = onExit_callback d (a\<lparr>app_scene := exitGame (app_scene a)\<rparr>)"

section \<open>The earlier scene with the reshuffle (class GameScene4)\<close>

text \<open>
  \<open>GameScene4\<close> is an earlier version of the same scene, not instantiated by the
  program's entry point. Its round end advances the mask index and reshuffles the
  masks at the wrap; the fields below are the ones its round end, its prompt and its
  exit read or write.
\<close>

record gameScene4 =
  g4_docImage :: image
  g4_strokes :: "point list"
  g4_coverageCanvas :: canvas
  g4_phase :: roundPhase
  g4_roundScore :: int
  g4_totalScore :: int
  g4_needsRedraw :: bool
  g4_allMasks :: "redactionMask list"
  g4_currentMaskIndex :: nat
  g4_mask :: "redactionMask option"
  g4_prompt :: string
  g4_onExit_calls :: nat

text \<open>
  \<open>shuffleMasks\<close>: the loop \<open>for (i = arr.length - 1; i > 0; i--)\<close> over a copy of the
  array, swapping \<open>arr[i]\<close> with \<open>arr[j]\<close> for \<open>j = Math.floor(Math.random() * (i + 1))\<close>.
  \<open>rnd k\<close> is the value of the \<open>k\<close>-th call of \<open>Math.random\<close> in the shuffle, a number in
  \<open>[0, 1)\<close>, so \<open>j \<le> i\<close>.
\<close>

fun shuffleLoop :: "(nat \<Rightarrow> real) \<Rightarrow> nat \<Rightarrow> nat \<Rightarrow> 'a list \<Rightarrow> 'a list" where
  "shuffleLoop rnd k 0 arr = arr"
| "shuffleLoop rnd k (Suc i') arr =
     (let i = Suc i';
          j = nat \<lfloor>rnd k * real (i + 1)\<rfloor>
      in shuffleLoop rnd (k + 1) i' (arr[i := arr ! j, j := arr ! i]))"

definition shuffleMasks :: "(nat \<Rightarrow> real) \<Rightarrow> 'a list \<Rightarrow> 'a list" where
  "shuffleMasks rnd ms = shuffleLoop rnd 0 (length ms - 1) ms"

text \<open>
  The painted pass of \<open>GameScene4\<close> tests the normalized coordinate \<open>(x / w, y / h)\<close>
  against the rects, in doubles; its missed pass is the one above.
\<close>

definition inTarget4 :: "maskRect list \<Rightarrow> real \<Rightarrow> real \<Rightarrow> bool" where
  "inTarget4 rs x y =
     list_ex (\<lambda>r. x \<ge> rx r \<and> y \<ge> ry r \<and> x \<le> fadd (rx r) (rwidth r) \<and>
                  y \<le> fadd (ry r) (rheight r)) rs"

function paintedRow4 ::
  "imageData \<Rightarrow> maskRect list \<Rightarrow> nat \<Rightarrow> nat \<Rightarrow> int \<Rightarrow> int \<Rightarrow> nat \<times> nat \<Rightarrow> nat \<times> nat" where
  "paintedRow4 data rs w h y x (correct, falsePositive) =
     (if x < int w then
        (if data ((y * int w + x) * 4 + 3) = Some 0
         then paintedRow4 data rs w h y (x + step) (correct, falsePositive)
         else if inTarget4 rs (fdiv (real_of_int x) (real w)) (fdiv (real_of_int y) (real h))
         then paintedRow4 data rs w h y (x + step) (correct + 1, falsePositive)
         else paintedRow4 data rs w h y (x + step) (correct, falsePositive + 1))
      else (correct, falsePositive))"
  by pat_completeness auto
termination
  by (relation "measure (\<lambda>(data, rs, w, h, y, x, acc). nat (int w - x))") (auto simp: step_def)

function paintedRows4 ::
  "imageData \<Rightarrow> maskRect list \<Rightarrow> nat \<Rightarrow> nat \<Rightarrow> int \<Rightarrow> nat \<times> nat \<Rightarrow> nat \<times> nat" where
  "paintedRows4 data rs w h y acc =
     (if y < int h then paintedRows4 data rs w h (y + step) (paintedRow4 data rs w h y 0 acc)
      else acc)"
  by pat_completeness auto
termination
  by (relation "measure (\<lambda>(data, rs, w, h, y, acc). nat (int h - y))") (auto simp: step_def)

definition calculateScore4 :: "gameScene4 \<Rightarrow> error + int" where
  "calculateScore4 s =
     (case g4_mask s of
        None \<Rightarrow> Inl TypeError
      | Some m \<Rightarrow>
          (let w = cv_width (g4_coverageCanvas s); h = cv_height (g4_coverageCanvas s)
           in case getImageData (g4_coverageCanvas s) of
                Inl e \<Rightarrow> Inl e
              | Inr data \<Rightarrow>
                  (let (correct, falsePositive) = paintedRows4 data (targetRects m) w h 0 (0, 0);
                       missed = missedRects data w h (targetRects m) 0
                   in Inr (max 0 (Math_round
                        (fsub (fsub (fmul (real correct) 2) (fmul (real falsePositive) (3 / 2)))
                           (fmul (real missed) 3)))))))"

text \<open>\<open>finishRound\<close> of \<open>GameScene4\<close>; \<open>rnd\<close> feeds the shuffle at the wrap.\<close>

definition finishRound4 :: "(nat \<Rightarrow> real) \<Rightarrow> gameScene4 \<Rightarrow> error + gameScene4" where
  "finishRound4 rnd s =
     (let s1 = s\<lparr>g4_phase := Scoring\<rparr>
      in case calculateScore4 s1 of
           Inl e \<Rightarrow> Inl e
         | Inr sc \<Rightarrow>
             (let s2 = s1\<lparr>g4_roundScore := sc, g4_totalScore := g4_totalScore s1 + sc,
                         g4_needsRedraw := True\<rparr>;
                  s3 = s2\<lparr>g4_currentMaskIndex := g4_currentMaskIndex s2 + 1\<rparr>
              in if g4_currentMaskIndex s3 \<ge> length (g4_allMasks s3)
                 then Inr (s3\<lparr>g4_currentMaskIndex := 0,
                              g4_allMasks := shuffleMasks rnd (g4_allMasks s3)\<rparr>)
                 else Inr s3))"

text \<open>
  \<open>loadCurrentMask\<close> reads \<open>allMasks[currentMaskIndex]\<close>, \<open>undefined\<close> past the end of the
  array, and then its \<open>prompt\<close>; \<open>startPrompt\<close> is the continue button's action.
\<close>

definition loadCurrentMask4 :: "gameScene4 \<Rightarrow> error + gameScene4" where
  "loadCurrentMask4 s =
     (if g4_currentMaskIndex s < length (g4_allMasks s) then
        (let m = g4_allMasks s ! g4_currentMaskIndex s
         in Inr (s\<lparr>g4_mask := Some m, g4_prompt := prompt m,
                   g4_docImage := (g4_docImage s)\<lparr>img_src := imageSrc m\<rparr>\<rparr>))
      else Inl TypeError)"

definition startPrompt4 :: "gameScene4 \<Rightarrow> error + gameScene4" where
  "startPrompt4 s =
     (case loadCurrentMask4 (s\<lparr>g4_phase := Prompt\<rparr>) of
        Inl e \<Rightarrow> Inl e
      | Inr s1 \<Rightarrow> Inr (s1\<lparr>g4_needsRedraw := True\<rparr>))"

definition exitToMenu4 :: "gameScene4 \<Rightarrow> gameScene4" where
  "exitToMenu4 s =
     s\<lparr>g4_roundScore := 0, g4_totalScore := 0, g4_strokes := [], g4_phase := Prompt,
       g4_onExit_calls := g4_onExit_calls s + 1\<rparr>"

text \<open>
  A number of rounds of \<open>GameScene4\<close>, each ended by \<open>finishRound\<close> and followed by the
  continue button, with the random source of each round end: the masks the rounds
  showed, and the scene after them.
\<close>

fun rounds4 ::
  "(nat \<Rightarrow> real) list \<Rightarrow> gameScene4 \<Rightarrow> error + (redactionMask option list \<times> gameScene4)" where
  "rounds4 [] s = Inr ([], s)"
| "rounds4 (rnd # rnds) s =
     (case finishRound4 rnd s of
        Inl e \<Rightarrow> Inl e
      | Inr s1 \<Rightarrow>
          (case startPrompt4 s1 of
             Inl e \<Rightarrow> Inl e
           | Inr s2 \<Rightarrow>
               (case rounds4 rnds s2 of
                  Inl e \<Rightarrow> Inl e
                | Inr (shown, s3) \<Rightarrow> Inr (g4_mask s # shown, s3))))"

section \<open>The scoring passes as sets of samples\<close>

text \<open>
  The samples of a loop \<open>for (v = a; v < b; v += step)\<close>: the values \<open>a\<close>, \<open>a + 4\<close>, ...
  below \<open>b\<close>.
\<close>

definition strideSamples :: "int \<Rightarrow> int \<Rightarrow> int set" where
  "strideSamples a b = {x. a \<le> x \<and> x < b \<and> (x - a) mod step = 0}"






text \<open>
  The missed pass samples each rect's bounding pixel range, from the floor of its
  scaled left and top edges to the ceiling of its scaled right and bottom edges, on
  the stride from the range's own corner.
\<close>

definition xRange :: "maskRect \<Rightarrow> nat \<Rightarrow> int set" where
  "xRange r w = strideSamples \<lfloor>fmul (rx r) (real w)\<rfloor> \<lceil>fmul (fadd (rx r) (rwidth r)) (real w)\<rceil>"

definition yRange :: "maskRect \<Rightarrow> nat \<Rightarrow> int set" where
  "yRange r h = strideSamples \<lfloor>fmul (ry r) (real h)\<rfloor> \<lceil>fmul (fadd (ry r) (rheight r)) (real h)\<rceil>"

definition pixelRange :: "maskRect \<Rightarrow> nat \<Rightarrow> nat \<Rightarrow> (int \<times> int) set" where
  "pixelRange r w h = {(x, y). x \<in> xRange r w \<and> y \<in> yRange r h}"



section \<open>The scoring algorithm in the specification's words\<close>

text \<open>
  The missed count of the specification: the samples of the pixel ranges where the
  raster is unpainted, that is, the samples that are pixels of the raster with an
  alpha byte of 0.
\<close>

definition isUnpainted :: "canvas \<Rightarrow> int \<Rightarrow> int \<Rightarrow> bool" where
  "isUnpainted c x y \<longleftrightarrow>
     0 \<le> x \<and> x < int (cv_width c) \<and> 0 \<le> y \<and> y < int (cv_height c) \<and>
     cv_bytes c (nat ((y * int (cv_width c) + x) * 4 + 3)) = 0"

definition spec_missed :: "canvas \<Rightarrow> maskRect list \<Rightarrow> nat" where
  "spec_missed c rs =
     (\<Sum>r \<leftarrow> rs. card {(x, y). (x, y) \<in> pixelRange r (cv_width c) (cv_height c) \<and> isUnpainted c x y})"




text \<open>
  A target rect that lies within the document image (\<open>r.x + r.width\<close> and
  \<open>r.y + r.height\<close> as the engine adds them), and a raster of a size that a canvas can
  have (its dimensions are unsigned longs).
\<close>

definition inDocument :: "maskRect \<Rightarrow> bool" where
  "inDocument r \<longleftrightarrow>
     0 \<le> rx r \<and> 0 \<le> ry r \<and> fadd (rx r) (rwidth r) \<le> 1 \<and> fadd (ry r) (rheight r) \<le> 1"

definition canvasSized :: "canvas \<Rightarrow> bool" where
  "canvasSized c \<longleftrightarrow> cv_width c < 2 ^ 32 \<and> cv_height c < 2 ^ 32"

section \<open>Observations of a run\<close>

text \<open>The number of Redacting-to-Scoring transitions in a run, and the scores they computed.\<close>

fun scoringTransitions :: "rasterizer \<Rightarrow> event list \<Rightarrow> gameScene \<Rightarrow> nat" where
  "scoringTransitions fill [] s = 0"
| "scoringTransitions fill (e # es) s =
     (case dispatch fill e s of
        Inl err \<Rightarrow> 0
      | Inr s' \<Rightarrow>
          (if phase s = Redacting \<and> phase s' = Scoring then 1 else 0)
          + scoringTransitions fill es s')"

fun roundScores :: "rasterizer \<Rightarrow> event list \<Rightarrow> gameScene \<Rightarrow> int list" where
  "roundScores fill [] s = []"
| "roundScores fill (e # es) s =
     (case dispatch fill e s of
        Inl err \<Rightarrow> []
      | Inr s' \<Rightarrow>
          (if phase s = Redacting \<and> phase s' = Scoring then [roundScore s'] else [])
          @ roundScores fill es s')"

text \<open>
  An event that resets the session: \<open>resetGame\<close>, or a pointer press that reaches
  \<open>exitGame\<close> (in the Scoring phase, on the exit button and off the continue button, which
  is tested first).
\<close>

definition activatesExit :: "point \<Rightarrow> gameScene \<Rightarrow> bool" where
  "activatesExit p s \<longleftrightarrow>
     phase s = Scoring \<and> \<not> hits (continueButton s) p \<and> hits (exitButton s) p"

fun resets :: "event \<Rightarrow> gameScene \<Rightarrow> bool" where
  "resets Reset s = True"
| "resets (PointerDown p) s = activatesExit p s"
| "resets e s = False"

fun noReset :: "rasterizer \<Rightarrow> event list \<Rightarrow> gameScene \<Rightarrow> bool" where
  "noReset fill [] s = True"
| "noReset fill (e # es) s =
     (\<not> resets e s \<and> (case dispatch fill e s of Inl err \<Rightarrow> True | Inr s' \<Rightarrow> noReset fill es s'))"

text \<open>
  A point of the document: both coordinates in \<open>[0, 1]\<close>. A layout that draws the
  document with a positive width and height. A host event with positive sizes.
\<close>

definition inUnitSquare :: "point \<Rightarrow> bool" where
  "inUnitSquare d \<longleftrightarrow> 0 \<le> pt_x d \<and> pt_x d \<le> 1 \<and> 0 \<le> pt_y d \<and> pt_y d \<le> 1"

definition positiveLayout :: "documentLayout \<Rightarrow> bool" where
  "positiveLayout L \<longleftrightarrow> 0 < drawWidth L \<and> 0 < drawHeight L"

fun positiveSizes :: "event \<Rightarrow> bool" where
  "positiveSizes (Resize rw rh) \<longleftrightarrow> 0 < rw \<and> 0 < rh"
| "positiveSizes (ImageLoaded natW natH rw rh) \<longleftrightarrow> 0 < natW \<and> 0 < natH \<and> 0 < rw \<and> 0 < rh"
| "positiveSizes e \<longleftrightarrow> True"

definition strokesInDocument :: "gameScene \<Rightarrow> bool" where
  "strokesInDocument s \<longleftrightarrow>
     list_all inUnitSquare (strokes s)
     \<and> (case layout s of None \<Rightarrow> True | Some L \<Rightarrow> positiveLayout L)
     \<and> (imageLoaded s \<longrightarrow> 0 < img_width (docImage s) \<and> 0 < img_height (docImage s))"

text \<open>The masks that \<open>n\<close> successive calls of \<open>loadNextMask\<close> present.\<close>

fun presentedMasks :: "nat \<Rightarrow> gameScene \<Rightarrow> redactionMask list" where
  "presentedMasks 0 s = []"
| "presentedMasks (Suc n) s =
     (case loadNextMask s of
        Inl err \<Rightarrow> []
      | Inr s' \<Rightarrow> (case maskCurrent s' of None \<Rightarrow> [] | Some m \<Rightarrow> [m]) @ presentedMasks n s')"

text \<open>A random source as \<open>Math.random\<close> gives it: every value in \<open>[0, 1)\<close>.\<close>

definition unitInterval :: "(nat \<Rightarrow> real) \<Rightarrow> bool" where
  "unitInterval rnd \<longleftrightarrow> (\<forall>k. 0 \<le> rnd k \<and> rnd k < 1)"

text \<open>
  The index \<open>j = Math.floor(Math.random() * (i + 1))\<close> that the shuffle draws for position
  \<open>i\<close> from its \<open>k\<close>-th random number.
\<close>

definition draw :: "(nat \<Rightarrow> real) \<Rightarrow> nat \<Rightarrow> nat \<Rightarrow> nat" where
  "draw rnd k i = nat \<lfloor>rnd k * real (i + 1)\<rfloor>"

section \<open>A concrete scene\<close>

text \<open>
  An 8 by 8 document with one target rect over its top left quarter, pixel \<open>(0, 0)\<close>
  painted, scored with half of the 30 seconds left, in a session that had 20 points
  before; the buttons where \<open>drawUI\<close> puts them on a 400 by 1000 layer.
\<close>

definition exampleMask :: redactionMask where
  "exampleMask =
     \<lparr>prompt = ''Remove all traces of Luke'', imageSrc = ''doc.png'',
      targetRects = [\<lparr>rx = 0, ry = 0, rwidth = 1 / 2, rheight = 1 / 2\<rparr>]\<rparr>"

definition exampleCanvas :: canvas where
  "exampleCanvas = \<lparr>cv_width = 8, cv_height = 8, cv_bytes = (\<lambda>k. if k = 3 then 255 else 0)\<rparr>"

definition exampleScene :: gameScene where
  "exampleScene =
     \<lparr>debugMode = False,
      docImage = \<lparr>img_src = ''doc.png'', img_width = 8, img_height = 8\<rparr>,
      imageLoaded = True,
      layout = Some \<lparr>scale = 2, offsetX = 0, offsetY = 0, drawWidth = 16, drawHeight = 16\<rparr>,
      strokes = [], isDrawing = False,
      coverageCanvas = exampleCanvas,
      phase = Scoring, timer = 15, timeLimit = 30, roundScore = 25, totalScore = 45,
      needsRedraw = True, masks = [exampleMask], currentMaskIndex = 1,
      prompt_text = ''Remove all traces of Luke'',
      maskCurrent = Some exampleMask,
      readyButton = Some \<lparr>btn_x = 130, btn_y = 330, btn_width = 140, btn_height = 40, btn_text = ''READY''\<rparr>,
      doneButton = Some \<lparr>btn_x = 250, btn_y = 10, btn_width = 140, btn_height = 40, btn_text = ''DONE''\<rparr>,
      continueButton =
        Some \<lparr>btn_x = 130, btn_y = 480, btn_width = 140, btn_height = 40, btn_text = ''CONTINUE''\<rparr>,
      exitButton = Some \<lparr>btn_x = 130, btn_y = 550, btn_width = 140, btn_height = 40, btn_text = ''EXIT''\<rparr>,
      onExit_calls = 0\<rparr>"

text \<open>
  A stand-in for the rasterizer in concrete runs: it makes the pixel under the centre
  opaque.
\<close>

definition exampleFill :: rasterizer where
  "exampleFill cx cy r c =
     c\<lparr>cv_bytes := (cv_bytes c)(nat (4 * (\<lfloor>cy\<rfloor> * int (cv_width c) + \<lfloor>cx\<rfloor>) + 3) := 255)\<rparr>"

text \<open>The same scene one second before the end of its Redacting phase, mid-stroke.\<close>

definition exampleRedacting :: gameScene where
  "exampleRedacting = exampleScene\<lparr>phase := Redacting, timer := 1, isDrawing := True\<rparr>"

text \<open>
  A catalogue of two masks, the second without target rects: the scene at the end of a
  pass over it, and the earlier scene \<open>GameScene4\<close> at the start of one.
\<close>

definition secondMask :: redactionMask where
  "secondMask = \<lparr>prompt = ''Remove nothing'', imageSrc = ''doc2.png'', targetRects = []\<rparr>"

definition exampleWrap :: gameScene where
  "exampleWrap = exampleScene\<lparr>masks := [exampleMask, secondMask], currentMaskIndex := 2\<rparr>"

definition exampleScene4 :: gameScene4 where
  "exampleScene4 =
     \<lparr>g4_docImage = \<lparr>img_src = ''doc.png'', img_width = 8, img_height = 8\<rparr>,
      g4_strokes = [], g4_coverageCanvas = exampleCanvas, g4_phase = Redacting,
      g4_roundScore = 0, g4_totalScore = 0, g4_needsRedraw = True,
      g4_allMasks = [exampleMask, secondMask], g4_currentMaskIndex = 0,
      g4_mask = Some exampleMask, g4_prompt = ''Remove all traces of Luke'',
      g4_onExit_calls = 0\<rparr>"



text \<open>
  A target rect that reaches beyond the document, as the rect editor can produce it
  (its \<open>screenToNormalized\<close> does not test the bounds).
\<close>

definition farRect :: maskRect where
  "farRect = \<lparr>rx = 1 / 2, ry = 1 / 2, rwidth = 1, rheight = 1\<rparr>"

text \<open>The example scene after a render on a UI layer of 400 by 500.\<close>

definition exampleLow :: gameScene where
  "exampleLow = render 400 500 exampleScene"

text \<open>The program with the example scene current.\<close>

definition exampleApp :: app where
  "exampleApp = \<lparr>app_scene = exampleScene, app_current = Some GameSceneId, app_notified = 0\<rparr>"

text \<open>
  Target rects of zero width or height, their corners given by the literals \<open>0.15\<close>,
  \<open>0.1\<close> and \<open>0.28\<close>: the doubles nearest to them.
\<close>

definition edgeRect :: maskRect where
  "edgeRect = \<lparr>rx = fl (15 / 100), ry = fl (15 / 100), rwidth = 0, rheight = 0\<rparr>"

definition tenthRect :: maskRect where
  "tenthRect = \<lparr>rx = fl (1 / 10), ry = 1 / 4, rwidth = 0, rheight = 1 / 2\<rparr>"

definition offRect :: maskRect where
  "offRect = \<lparr>rx = fl (28 / 100), ry = 1 / 4, rwidth = 0, rheight = 1 / 2\<rparr>"

definition rowRect :: maskRect where
  "rowRect = \<lparr>rx = 1 / 4, ry = fl (28 / 100), rwidth = 1 / 2, rheight = 0\<rparr>"


section \<open>Rounding to doubles\<close>

declare exponentUp.simps [simp del] exponentDown.simps [simp del]

lemmas fl_eval = fl_def ulp_def exponent_def exponentUp.simps exponentDown.simps roundEven_def Let_def

lemma ulp_pos: "0 < ulp x"
  by (simp add: ulp_def)

lemma roundEven_of_int: "roundEven (of_int n) = n"
  by (simp add: roundEven_def)

lemma roundEven_le: "y \<le> of_int k \<Longrightarrow> roundEven y \<le> k"
  unfolding roundEven_def Let_def by (auto; linarith)

lemma roundEven_ge: "of_int k \<le> y \<Longrightarrow> k \<le> roundEven y"
  unfolding roundEven_def Let_def by (auto; linarith)

lemma powi_step: "(2::real) powi (n + 1) = 2 * 2 powi n"
  by (simp add: power_int_add)

lemma exponentUp_rec: "2 \<le> x \<and> e < 1023 \<Longrightarrow> exponentUp x e = exponentUp (x / 2) (e + 1)"
  by (subst exponentUp.simps) simp

lemma exponentUp_stop: "\<not> (2 \<le> x \<and> e < 1023) \<Longrightarrow> exponentUp x e = e"
  by (subst exponentUp.simps) auto

lemma exponentDown_rec: "x < 1 \<and> - 1022 < e \<Longrightarrow> exponentDown x e = exponentDown (x * 2) (e - 1)"
  by (subst exponentDown.simps) simp

lemma exponentDown_stop: "\<not> (x < 1 \<and> - 1022 < e) \<Longrightarrow> exponentDown x e = e"
  by (subst exponentDown.simps) auto

lemma exponentUp_range: "e \<le> 1023 \<Longrightarrow> e \<le> exponentUp x e \<and> exponentUp x e \<le> 1023"
proof (induction x e rule: exponentUp.induct)
  case (1 x e)
  show ?case
  proof (cases "2 \<le> x \<and> e < 1023")
    case True
    with "1.IH" have "e + 1 \<le> exponentUp (x / 2) (e + 1) \<and> exponentUp (x / 2) (e + 1) \<le> 1023"
      by simp
    then show ?thesis unfolding exponentUp_rec [OF True] by simp
  next
    case False
    with "1.prems" show ?thesis unfolding exponentUp_stop [OF False] by simp
  qed
qed

lemma exponentUp_lower: "1 \<le> x \<Longrightarrow> 2 powi (exponentUp x e - e) \<le> x"
proof (induction x e rule: exponentUp.induct)
  case (1 x e)
  show ?case
  proof (cases "2 \<le> x \<and> e < 1023")
    case True
    with "1.IH" have "2 powi (exponentUp (x / 2) (e + 1) - (e + 1)) \<le> x / 2" by simp
    moreover have "(2::real) powi (exponentUp (x / 2) (e + 1) - e)
                   = 2 * 2 powi (exponentUp (x / 2) (e + 1) - (e + 1))"
      using powi_step [of "exponentUp (x / 2) (e + 1) - (e + 1)"] by (simp add: algebra_simps)
    ultimately show ?thesis unfolding exponentUp_rec [OF True] by simp
  next
    case False
    with "1.prems" show ?thesis unfolding exponentUp_stop [OF False] by simp
  qed
qed

lemma exponentUp_upper: "exponentUp x e < 1023 \<Longrightarrow> x < 2 * 2 powi (exponentUp x e - e)"
proof (induction x e rule: exponentUp.induct)
  case (1 x e)
  show ?case
  proof (cases "2 \<le> x \<and> e < 1023")
    case True
    note r = exponentUp_rec [OF True]
    from "1.prems" "1.IH" True
    have "x / 2 < 2 * 2 powi (exponentUp (x / 2) (e + 1) - (e + 1))" unfolding r by simp
    moreover have "(2::real) powi (exponentUp (x / 2) (e + 1) - e)
                   = 2 * 2 powi (exponentUp (x / 2) (e + 1) - (e + 1))"
      using powi_step [of "exponentUp (x / 2) (e + 1) - (e + 1)"] by (simp add: algebra_simps)
    ultimately show ?thesis unfolding r by simp
  next
    case False
    note r = exponentUp_stop [OF False]
    from "1.prems" False show ?thesis unfolding r by auto
  qed
qed

lemma exponentDown_range: "- 1022 \<le> e \<Longrightarrow> - 1022 \<le> exponentDown x e \<and> exponentDown x e \<le> e"
proof (induction x e rule: exponentDown.induct)
  case (1 x e)
  show ?case
  proof (cases "x < 1 \<and> - 1022 < e")
    case True
    with "1.IH" have "- 1022 \<le> exponentDown (x * 2) (e - 1) \<and> exponentDown (x * 2) (e - 1) \<le> e - 1"
      by simp
    then show ?thesis unfolding exponentDown_rec [OF True] by simp
  next
    case False
    with "1.prems" show ?thesis unfolding exponentDown_stop [OF False] by simp
  qed
qed

lemma exponentDown_lower:
  "0 < x \<Longrightarrow> - 1022 < exponentDown x e \<Longrightarrow> 2 powi (exponentDown x e - e) \<le> x"
proof (induction x e rule: exponentDown.induct)
  case (1 x e)
  show ?case
  proof (cases "x < 1 \<and> - 1022 < e")
    case True
    note r = exponentDown_rec [OF True]
    from "1.prems" "1.IH" True
    have "2 powi (exponentDown (x * 2) (e - 1) - (e - 1)) \<le> x * 2" unfolding r by simp
    moreover have "(2::real) powi (exponentDown (x * 2) (e - 1) - (e - 1))
                   = 2 * 2 powi (exponentDown (x * 2) (e - 1) - e)"
      using powi_step [of "exponentDown (x * 2) (e - 1) - e"] by (simp add: algebra_simps)
    ultimately show ?thesis unfolding r by simp
  next
    case False
    note r = exponentDown_stop [OF False]
    from "1.prems" False show ?thesis unfolding r by auto
  qed
qed

lemma exponentDown_upper: "x < 2 \<Longrightarrow> x < 2 * 2 powi (exponentDown x e - e)"
proof (induction x e rule: exponentDown.induct)
  case (1 x e)
  show ?case
  proof (cases "x < 1 \<and> - 1022 < e")
    case True
    note r = exponentDown_rec [OF True]
    from "1.IH" True
    have "x * 2 < 2 * 2 powi (exponentDown (x * 2) (e - 1) - (e - 1))" by simp
    moreover have "(2::real) powi (exponentDown (x * 2) (e - 1) - (e - 1))
                   = 2 * 2 powi (exponentDown (x * 2) (e - 1) - e)"
      using powi_step [of "exponentDown (x * 2) (e - 1) - e"] by (simp add: algebra_simps)
    ultimately show ?thesis unfolding r by simp
  next
    case False
    note r = exponentDown_stop [OF False]
    from "1.prems" show ?thesis unfolding r by simp
  qed
qed

lemma exponent_range: "- 1022 \<le> exponent x \<and> exponent x \<le> 1023"
  using exponentUp_range [of 0 "\<bar>x\<bar>"] exponentDown_range [of 0 "\<bar>x\<bar>"]
  by (auto simp: exponent_def)

lemma exponent_lower: "x \<noteq> 0 \<Longrightarrow> - 1022 < exponent x \<Longrightarrow> 2 powi exponent x \<le> \<bar>x\<bar>"
  using exponentUp_lower [of "\<bar>x\<bar>" 0] exponentDown_lower [of "\<bar>x\<bar>" 0]
  by (auto simp: exponent_def split: if_splits)

lemma exponent_upper: "exponent x < 1023 \<Longrightarrow> \<bar>x\<bar> < 2 * 2 powi exponent x"
  using exponentUp_upper [of "\<bar>x\<bar>" 0] exponentDown_upper [of "\<bar>x\<bar>" 0]
  by (auto simp: exponent_def split: if_splits)

lemma fl_0 [simp]: "fl 0 = 0"
  by (simp add: fl_def)

lemma fl_nonneg: "0 \<le> x \<Longrightarrow> 0 \<le> fl x"
proof -
  assume "0 \<le> x"
  then have "of_int 0 \<le> x / ulp x" using ulp_pos [of x] by simp
  then have "0 \<le> roundEven (x / ulp x)" by (rule roundEven_ge)
  then show ?thesis using ulp_pos [of x] by (simp add: fl_def)
qed

lemma fl_nonpos: "x \<le> 0 \<Longrightarrow> fl x \<le> 0"
proof -
  assume "x \<le> 0"
  then have "x / ulp x \<le> of_int 0" using ulp_pos [of x] by (simp add: divide_le_0_iff)
  then have "roundEven (x / ulp x) \<le> 0" by (rule roundEven_le)
  then show ?thesis using ulp_pos [of x] by (simp add: fl_def mult_le_0_iff)
qed


lemma fl_integral: "x / ulp x = of_int m \<Longrightarrow> fl x = x"
proof -
  assume a: "x / ulp x = of_int m"
  then have "x = of_int m * ulp x" using ulp_pos [of x] by (simp add: field_simps)
  then show ?thesis using a by (simp add: fl_def roundEven_of_int)
qed

lemma fl_two_53: "fl 9007199254740992 = 9007199254740992"
  by (simp add: fl_eval)

lemma fl_le_int:
  assumes "x \<le> of_int n" and "0 \<le> n" and "n \<le> 2 ^ 53"
  shows "fl x \<le> of_int n"
proof (cases "x \<le> 0")
  case True
  then have "fl x \<le> 0" by (rule fl_nonpos)
  with assms(2) show ?thesis by simp
next
  case False
  then have xp: "0 < x" by simp
  have up: "0 < ulp x" by (rule ulp_pos)
  show ?thesis
  proof (cases "exponent x \<le> 52")
    case True
    define k where "k = n * 2 ^ nat (52 - exponent x)"
    have "ulp x * 2 powi (52 - exponent x) = 2 powi (exponent x - 52 + (52 - exponent x))"
      unfolding ulp_def by (subst power_int_add) simp_all
    then have u: "ulp x * 2 powi (52 - exponent x) = 1" by simp
    have "of_int n / ulp x = of_int n * 2 powi (52 - exponent x)"
      using u up by (simp add: field_simps)
    also have "\<dots> = of_int k"
      unfolding k_def using True by (simp add: power_int_nonneg_exp)
    finally have nk: "of_int n / ulp x = of_int k" .
    have "x / ulp x \<le> of_int n / ulp x"
      using assms(1) up by (simp add: divide_right_mono)
    then have "roundEven (x / ulp x) \<le> k" unfolding nk by (rule roundEven_le)
    then have "of_int (roundEven (x / ulp x)) * ulp x \<le> of_int k * ulp x"
      using up by simp
    also have "of_int k * ulp x = of_int n" using nk up by (simp add: field_simps)
    finally show ?thesis using xp by (simp add: fl_def)
  next
    case False
    then have e53: "53 \<le> exponent x" by simp
    then have "2 powi exponent x \<le> \<bar>x\<bar>" using exponent_lower [of x] xp by simp
    moreover have "(2::real) powi 53 \<le> 2 powi exponent x"
      using e53 by (intro power_int_increasing) simp_all
    ultimately have "2 ^ 53 \<le> x" using xp by simp
    moreover have "real_of_int n \<le> 2 ^ 53"
    proof -
      have "real_of_int n \<le> real_of_int (2 ^ 53)" using assms(3) by (simp only: of_int_le_iff)
      then show ?thesis by simp
    qed
    ultimately have "x = 2 ^ 53" and "real_of_int n = 2 ^ 53" using assms(1) by simp_all
    then show ?thesis by (simp add: fl_two_53)
  qed
qed

lemma roundEven_abs_le: "\<bar>y\<bar> \<le> of_int k \<Longrightarrow> \<bar>roundEven y\<bar> \<le> k"
proof -
  assume a: "\<bar>y\<bar> \<le> of_int k"
  then have "y \<le> of_int k" and "of_int (- k) \<le> y" by simp_all
  then have "roundEven y \<le> k" and "- k \<le> roundEven y"
    by (simp_all add: roundEven_le roundEven_ge)
  then show ?thesis by simp
qed

lemma fl_idem: "fl (fl x) = fl x"
proof (cases "fl x = 0")
  case True
  then show ?thesis by simp
next
  case False
  then have x0: "x \<noteq> 0" by auto
  define N where "N = roundEven (x / ulp x)"
  define e where "e = exponent x"
  define e' where "e' = exponent (fl x)"
  have y: "fl x = of_int N * 2 powi (e - 52)"
    using x0 by (simp add: fl_def N_def e_def ulp_def)
  have uy: "ulp (fl x) = 2 powi (e' - 52)" by (simp add: ulp_def e'_def)
  have q: "fl x / ulp (fl x) = of_int N * 2 powi (e - e')"
  proof -
    have d: "(2::real) powi (e - 52) / 2 powi (e' - 52) = 2 powi (e - 52 - (e' - 52))"
      by (subst power_int_diff) simp_all
    have "fl x / ulp (fl x) = fl x / 2 powi (e' - 52)" by (simp only: uy)
    also have "\<dots> = of_int N * (2 powi (e - 52) / 2 powi (e' - 52))" by (simp only: y) simp
    finally show ?thesis unfolding d by simp
  qed
  have "\<exists>m. fl x / ulp (fl x) = of_int m"
  proof (cases "e' \<le> e")
    case True
    then have "of_int N * (2::real) powi (e - e') = of_int (N * 2 ^ nat (e - e'))"
      by (simp add: power_int_nonneg_exp)
    then show ?thesis unfolding q by blast
  next
    case gt: False
    have r: "- 1022 \<le> e" "e' \<le> 1023"
      using exponent_range [of x] exponent_range [of "fl x"] by (simp_all add: e_def e'_def)
    with gt have lo: "2 powi e' \<le> \<bar>fl x\<bar>"
      using exponent_lower [OF False] by (simp add: e'_def)
    from gt r have "exponent x < 1023" by (simp add: e_def)
    then have "\<bar>x\<bar> < 2 * 2 powi e" unfolding e_def by (rule exponent_upper)
    then have "\<bar>x\<bar> / ulp x \<le> 2 * 2 powi e / ulp x"
      using ulp_pos [of x] by (simp add: divide_right_mono)
    also have "2 * 2 powi e / ulp x = 2 * ((2::real) powi e / 2 powi (e - 52))"
      by (simp add: ulp_def e_def)
    also have "(2::real) powi e / 2 powi (e - 52) = 2 powi (e - (e - 52))"
      by (subst power_int_diff) simp_all
    finally have "\<bar>x / ulp x\<bar> \<le> of_int (2 ^ 53)" using ulp_pos [of x] by simp
    then have Nle: "\<bar>N\<bar> \<le> 2 ^ 53" unfolding N_def by (rule roundEven_abs_le)
    have ay: "\<bar>fl x\<bar> = of_int \<bar>N\<bar> * 2 powi (e - 52)"
      unfolding y by (simp add: abs_mult)
    have "of_int \<bar>N\<bar> \<le> (2::real) ^ 53"
    proof -
      have "real_of_int \<bar>N\<bar> \<le> real_of_int (2 ^ 53)" using Nle by (simp only: of_int_le_iff)
      then show ?thesis by simp
    qed
    then have "\<bar>fl x\<bar> \<le> 2 ^ 53 * 2 powi (e - 52)"
      unfolding ay by (intro mult_right_mono) simp_all
    moreover have pw: "(2::real) ^ 53 * 2 powi (e - 52) = 2 powi (e + 1)"
    proof -
      have "(2::real) powi (53 + (e - 52)) = 2 powi 53 * 2 powi (e - 52)"
        by (rule power_int_add) simp
      moreover have "53 + (e - 52) = e + 1" by simp
      ultimately show ?thesis by simp
    qed
    ultimately have hi: "\<bar>fl x\<bar> \<le> 2 powi (e + 1)" by (simp only:)
    from lo hi have le: "(2::real) powi e' \<le> 2 powi (e + 1)" by (rule order_trans)
    have "e' \<le> e + 1"
    proof (rule ccontr)
      assume "\<not> e' \<le> e + 1"
      then have "(2::real) powi (e + 1) < 2 powi e'"
        by (intro power_int_strict_increasing) simp_all
      with le show False by simp
    qed
    with gt have e1: "e' = e + 1" by simp
    from lo hi have "\<bar>fl x\<bar> = 2 powi (e + 1)" unfolding e1 by (rule order_antisym [rotated])
    then have "of_int \<bar>N\<bar> * (2::real) powi (e - 52) = 2 ^ 53 * 2 powi (e - 52)"
      unfolding ay pw .
    then have "real_of_int \<bar>N\<bar> = 2 ^ 53"
      by (subst (asm) mult_right_cancel) simp_all
    then have "real_of_int \<bar>N\<bar> = real_of_int (2 ^ 53)" by simp
    then have "\<bar>N\<bar> = 2 ^ 53" by (simp only: of_int_eq_iff)
    then have "N = 2 ^ 53 \<or> N = - (2 ^ 53)" by auto
    moreover have "(2::real) powi (e - e') = 1 / 2" unfolding e1 by (simp add: power_int_minus)
    ultimately have "of_int N * (2::real) powi (e - e') = of_int (2 ^ 52)
                     \<or> of_int N * (2::real) powi (e - e') = of_int (- (2 ^ 52))"
      by auto
    then show ?thesis unfolding q by blast
  qed
  then obtain m where "fl x / ulp (fl x) = of_int m" ..
  then show ?thesis by (rule fl_integral)
qed

lemma fl_dyadic:
  assumes "\<bar>m\<bar> \<le> 2 ^ 53" and "- 1074 \<le> j"
  shows "fl (of_int m * 2 powi j) = of_int m * 2 powi j"
proof (cases "m = 0")
  case True
  then show ?thesis by simp
next
  case False
  define x :: real where "x = of_int m * 2 powi j"
  define e where "e = exponent x"
  have x0: "x \<noteq> 0" using False by (simp add: x_def)
  have q: "x / ulp x = of_int m * 2 powi (j - e + 52)"
  proof -
    have "(2::real) powi j / 2 powi (e - 52) = 2 powi (j - (e - 52))"
      by (subst power_int_diff) simp_all
    moreover have "j - (e - 52) = j - e + 52" by simp
    ultimately have d: "(2::real) powi j / 2 powi (e - 52) = 2 powi (j - e + 52)" by simp
    have u: "ulp x = 2 powi (e - 52)" by (simp add: ulp_def e_def)
    have "x / ulp x = of_int m * (2 powi j / 2 powi (e - 52))" unfolding u by (simp add: x_def)
    then show ?thesis unfolding d .
  qed
  have "\<exists>k. x / ulp x = of_int k"
  proof (cases "0 \<le> j - e + 52")
    case True
    then have "of_int m * (2::real) powi (j - e + 52) = of_int (m * 2 ^ nat (j - e + 52))"
      by (simp add: power_int_nonneg_exp)
    then show ?thesis unfolding q by blast
  next
    case neg: False
    then have big: "j + 52 < e" by simp
    with assms(2) have "- 1022 < exponent x" by (simp add: e_def)
    then have lo: "2 powi e \<le> \<bar>x\<bar>" unfolding e_def by (rule exponent_lower [OF x0])
    have ax: "\<bar>x\<bar> = of_int \<bar>m\<bar> * 2 powi j" by (simp add: x_def abs_mult)
    have mle: "real_of_int \<bar>m\<bar> \<le> 2 ^ 53"
    proof -
      have "real_of_int \<bar>m\<bar> \<le> real_of_int (2 ^ 53)" using assms(1) by (simp only: of_int_le_iff)
      then show ?thesis by simp
    qed
    then have "\<bar>x\<bar> \<le> 2 ^ 53 * 2 powi j" unfolding ax by (intro mult_right_mono) simp_all
    moreover have pw: "(2::real) ^ 53 * 2 powi j = 2 powi (j + 53)"
    proof -
      have "(2::real) powi (53 + j) = 2 powi 53 * 2 powi j" by (rule power_int_add) simp
      moreover have "53 + j = j + 53" by simp
      ultimately show ?thesis by simp
    qed
    ultimately have hi: "\<bar>x\<bar> \<le> 2 powi (j + 53)" by (simp only:)
    from lo hi have le: "(2::real) powi e \<le> 2 powi (j + 53)" by (rule order_trans)
    have "e \<le> j + 53"
    proof (rule ccontr)
      assume "\<not> e \<le> j + 53"
      then have "(2::real) powi (j + 53) < 2 powi e"
        by (intro power_int_strict_increasing) simp_all
      with le show False by simp
    qed
    with big have e1: "e = j + 53" by simp
    from lo hi have "\<bar>x\<bar> = 2 powi (j + 53)" unfolding e1 by (rule order_antisym [rotated])
    then have "of_int \<bar>m\<bar> * (2::real) powi j = 2 ^ 53 * 2 powi j" unfolding ax pw .
    then have "real_of_int \<bar>m\<bar> = 2 ^ 53" by (subst (asm) mult_right_cancel) simp_all
    then have "real_of_int \<bar>m\<bar> = real_of_int (2 ^ 53)" by simp
    then have "\<bar>m\<bar> = 2 ^ 53" by (simp only: of_int_eq_iff)
    then have "m = 2 ^ 53 \<or> m = - (2 ^ 53)" by auto
    moreover have "(2::real) powi (j - e + 52) = 1 / 2" unfolding e1 by (simp add: power_int_minus)
    ultimately have "of_int m * (2::real) powi (j - e + 52) = of_int (2 ^ 52)
                     \<or> of_int m * (2::real) powi (j - e + 52) = of_int (- (2 ^ 52))"
      by auto
    then show ?thesis unfolding q by blast
  qed
  then obtain k where "x / ulp x = of_int k" ..
  then have "fl x = x" by (rule fl_integral)
  then show ?thesis by (simp add: x_def)
qed

lemma fl_of_int: "\<bar>m\<bar> \<le> 2 ^ 53 \<Longrightarrow> fl (of_int m) = of_int m"
  using fl_dyadic [of m 0] by simp


lemma isDouble_fl: "isDouble (fl x)"
  by (simp add: isDouble_def fl_idem)



section \<open>The scoring loops as counts over their samples\<close>

declare missedRow.simps [simp del] missedRows.simps [simp del]
declare paintedRow.simps [simp del] paintedRows.simps [simp del]
declare paintedRow4.simps [simp del] paintedRows4.simps [simp del]

lemmas loop_simps = paintedRows.simps paintedRow.simps missedRows.simps missedRow.simps

lemma finite_strideSamples [simp]: "finite (strideSamples a b)"
proof -
  have "strideSamples a b \<subseteq> {a..<b}" by (auto simp: strideSamples_def)
  then show ?thesis by (rule finite_subset) simp
qed

lemma strideSamples_empty: "\<not> a < b \<Longrightarrow> strideSamples a b = {}"
  by (auto simp: strideSamples_def)

lemma strideSamples_rec: "a < b \<Longrightarrow> strideSamples a b = insert a (strideSamples (a + step) b)"
  unfolding strideSamples_def step_def
  apply (rule set_eqI)
  apply simp
  apply presburger
  done

lemma strideSamples_notin: "a \<notin> strideSamples (a + step) b"
  by (simp add: strideSamples_def step_def)

lemma card_stride_rec:
  assumes "a < b"
  shows "card {x \<in> strideSamples a b. P x} =
         (if P a then 1 else 0) + card {x \<in> strideSamples (a + step) b. P x}"
proof -
  have "{x \<in> strideSamples a b. P x} =
        (if P a then insert a {x \<in> strideSamples (a + step) b. P x}
         else {x \<in> strideSamples (a + step) b. P x})"
    by (subst strideSamples_rec [OF assms]) auto
  moreover have "card (insert a {x \<in> strideSamples (a + step) b. P x}) =
                 Suc (card {x \<in> strideSamples (a + step) b. P x})"
    by (rule card_insert_disjoint) (simp_all add: strideSamples_notin)
  ultimately show ?thesis by simp
qed

lemma card_stride_empty: "\<not> a < b \<Longrightarrow> card {x \<in> strideSamples a b. P x} = 0"
  by (simp add: strideSamples_empty)

lemma missedRow_card:
  "missedRow data w y endX x missed =
     missed + card {x' \<in> strideSamples x endX. data ((y * int w + x') * 4 + 3) = Some 0}"
proof (induction data w y endX x missed rule: missedRow.induct)
  case (1 data w y endX x missed)
  show ?case
  proof (cases "x < endX")
    case True
    show ?thesis
      by (subst missedRow.simps, simp only: True if_True, subst "1.IH" [OF True],
          subst card_stride_rec [OF True]) simp
  next
    case False
    then show ?thesis
      by (subst missedRow.simps) (simp add: card_stride_empty)
  qed
qed

lemma sum_stride_rec:
  "a < b \<Longrightarrow> (\<Sum>y \<in> strideSamples a b. f y) = f a + (\<Sum>y \<in> strideSamples (a + step) b. f y)"
  by (simp add: strideSamples_rec strideSamples_notin)

lemma sum_stride_empty: "\<not> a < b \<Longrightarrow> (\<Sum>y \<in> strideSamples a b. f y) = 0"
  by (simp add: strideSamples_empty)

lemma missedRows_sum:
  "missedRows data w startX endX endY y missed =
     missed + (\<Sum>y' \<in> strideSamples y endY.
                 card {x' \<in> strideSamples startX endX. data ((y' * int w + x') * 4 + 3) = Some 0})"
proof (induction data w startX endX endY y missed rule: missedRows.induct)
  case (1 data w startX endX endY y missed)
  show ?case
  proof (cases "y < endY")
    case True
    show ?thesis
      by (subst missedRows.simps, simp only: True if_True, subst "1.IH" [OF True],
          subst sum_stride_rec [OF True]) (simp add: missedRow_card)
  next
    case False
    then show ?thesis
      by (subst missedRows.simps) (simp add: sum_stride_empty)
  qed
qed

lemma paintedRow_card:
  "paintedRow data rs w h y x acc =
     (fst acc + card {x' \<in> strideSamples x (int w).
                        data ((y * int w + x') * 4 + 3) \<noteq> Some 0 \<and> inside rs w h x' y},
      snd acc + card {x' \<in> strideSamples x (int w).
                        data ((y * int w + x') * 4 + 3) \<noteq> Some 0 \<and> \<not> inside rs w h x' y})"
proof (induction data rs w h y x acc rule: paintedRow.induct)
  case (1 data rs w h y x correct falsePositive)
  show ?case
  proof (cases "x < int w")
    case True
    show ?thesis
    proof (cases "data ((y * int w + x) * 4 + 3) = Some 0")
      case z: True
      show ?thesis
        by (subst paintedRow.simps, simp only: True z if_True, subst "1.IH"(1) [OF True z],
            subst (1 2) card_stride_rec [OF True]) (use z in simp)
    next
      case nz: False
      show ?thesis
      proof (cases "inside rs w h x y")
        case i: True
        show ?thesis
          by (subst paintedRow.simps, simp only: True nz i if_True if_False,
              subst "1.IH"(2) [OF True nz i], subst (1 2) card_stride_rec [OF True])
             (use nz i in simp)
      next
        case ni: False
        show ?thesis
          by (subst paintedRow.simps, simp only: True nz ni if_True if_False,
              subst "1.IH"(3) [OF True nz ni], subst (1 2) card_stride_rec [OF True])
             (use nz ni in simp)
      qed
    qed
  next
    case False
    then show ?thesis
      by (subst paintedRow.simps) (simp add: card_stride_empty)
  qed
qed

lemma paintedRows_sum:
  "paintedRows data rs w h y acc =
     (fst acc + (\<Sum>y' \<in> strideSamples y (int h).
                   card {x' \<in> strideSamples 0 (int w).
                           data ((y' * int w + x') * 4 + 3) \<noteq> Some 0 \<and> inside rs w h x' y'}),
      snd acc + (\<Sum>y' \<in> strideSamples y (int h).
                   card {x' \<in> strideSamples 0 (int w).
                           data ((y' * int w + x') * 4 + 3) \<noteq> Some 0 \<and> \<not> inside rs w h x' y'}))"
proof (induction data rs w h y acc rule: paintedRows.induct)
  case (1 data rs w h y acc)
  show ?case
  proof (cases "y < int h")
    case True
    show ?thesis
      by (subst paintedRows.simps, simp only: True if_True, subst "1.IH" [OF True],
          subst (1 2) sum_stride_rec [OF True]) (simp add: paintedRow_card)
  next
    case False
    then show ?thesis
      by (subst paintedRows.simps) (simp add: sum_stride_empty)
  qed
qed

lemma sum_card_pairs:
  assumes "finite A" "finite B"
  shows "(\<Sum>y \<in> A. card {x \<in> B. P x y}) = card {(x, y). x \<in> B \<and> y \<in> A \<and> P x y}"
proof -
  have "(\<Sum>y \<in> A. card {x \<in> B. P x y}) = card (SIGMA y : A. {x \<in> B. P x y})"
    using assms by (subst card_SigmaI) auto
  also have "(SIGMA y : A. {x \<in> B. P x y}) = prod.swap ` {(x, y). x \<in> B \<and> y \<in> A \<and> P x y}"
    by (auto simp: image_iff)
  also have "card \<dots> = card {(x, y). x \<in> B \<and> y \<in> A \<and> P x y}"
    by (rule card_image) (simp add: inj_on_def)
  finally show ?thesis .
qed

lemma strideSamples_bounds: "x \<in> strideSamples a b \<Longrightarrow> a \<le> x \<and> x < b"
  by (simp add: strideSamples_def)

lemma grid_index_in_array:
  assumes "0 \<le> x" "x < int w" "0 \<le> y" "y < int h"
  shows "0 \<le> (y * int w + x) * 4 + 3 \<and> (y * int w + x) * 4 + 3 < 4 * int w * int h"
proof -
  have "y + 1 \<le> int h" using assms by simp
  then have "(y + 1) * int w \<le> int h * int w"
    by (rule mult_right_mono) simp
  then have "y * int w + x < int w * int h"
    using assms by (simp add: algebra_simps)
  moreover have "0 \<le> y * int w" using assms by simp
  ultimately show ?thesis using assms by simp
qed






lemma missedRect_card:
  "missedRect data w h r missed =
     missed + card {(x, y). (x, y) \<in> pixelRange r w h \<and> data ((y * int w + x) * 4 + 3) = Some 0}"
  by (simp add: missedRect_def Let_def missedRows_sum sum_card_pairs pixelRange_def xRange_def
      yRange_def)

lemma missedRects_card:
  "missedRects data w h rs missed =
     missed + (\<Sum>r \<leftarrow> rs. card {(x, y). (x, y) \<in> pixelRange r w h \<and>
                                   data ((y * int w + x) * 4 + 3) = Some 0})"
  by (induction rs arbitrary: missed) (simp_all add: missedRect_card)






lemma fl_real_nat: "n \<le> 2 ^ 53 \<Longrightarrow> fl (real n) = real n"
proof -
  assume "n \<le> 2 ^ 53"
  then have "int n \<le> 2 ^ 53" by (metis of_nat_le_iff of_nat_numeral of_nat_power)
  then have "fl (of_int (int n)) = of_int (int n)" by (intro fl_of_int) simp
  then show ?thesis by simp
qed





lemma card_strideSamples: "card (strideSamples a b) = nat ((b - a + 3) div 4)"
proof (induction "nat (b - a)" arbitrary: a rule: less_induct)
  case less
  show ?case
  proof (cases "a < b")
    case True
    have "card (strideSamples a b) = Suc (card (strideSamples (a + step) b))"
      by (simp add: strideSamples_rec [OF True] strideSamples_notin)
    also have "card (strideSamples (a + step) b) = nat ((b - (a + step) + 3) div 4)"
      using True by (intro less) (simp add: step_def)
    finally show ?thesis using True by (simp add: step_def)
  next
    case False
    then have "(b - a + 3) div 4 \<le> 0" by linarith
    with False show ?thesis by (simp add: strideSamples_empty)
  qed
qed

lemma pixelRange_product: "pixelRange r w h = xRange r w \<times> yRange r h"
  by (auto simp: pixelRange_def)

lemma card_pixelRange: "card (pixelRange r w h) = card (xRange r w) * card (yRange r h)"
  by (simp add: pixelRange_product card_cartesian_product)

lemma stride_single: "strideSamples k (k + 1) = {k}"
proof -
  have "k < k + 1" by simp
  from strideSamples_rec [OF this]
  have "strideSamples k (k + 1) = insert k (strideSamples (k + step) (k + 1))" .
  moreover have "strideSamples (k + step) (k + 1) = {}"
    by (rule strideSamples_empty) (simp add: step_def)
  ultimately show ?thesis by simp
qed

lemma stride_floor_ceiling:
  "strideSamples \<lfloor>a\<rfloor> \<lceil>a\<rceil> = (if a \<in> \<int> then {} else {\<lfloor>a :: real\<rfloor>})"
proof (cases "a \<in> \<int>")
  case True
  then obtain k :: int where "a = of_int k" by (auto elim: Ints_cases)
  then show ?thesis using True by (simp add: strideSamples_empty)
next
  case False
  then have "a \<noteq> of_int \<lfloor>a\<rfloor>" by (metis Ints_of_int)
  then have "\<lceil>a\<rceil> = \<lfloor>a\<rfloor> + 1" by (simp add: ceiling_altdef)
  with False show ?thesis by (simp add: stride_single)
qed

lemma xRange_zero_width:
  assumes "isDouble (rx r)" and "rwidth r = 0"
  shows "xRange r w = strideSamples \<lfloor>fmul (rx r) (real w)\<rfloor> \<lceil>fmul (rx r) (real w)\<rceil>"
  using assms by (simp add: xRange_def fadd_def isDouble_def)

lemma yRange_zero_height:
  assumes "isDouble (ry r)" and "rheight r = 0"
  shows "yRange r h = strideSamples \<lfloor>fmul (ry r) (real h)\<rfloor> \<lceil>fmul (ry r) (real h)\<rceil>"
  using assms by (simp add: yRange_def fadd_def isDouble_def)

lemma zero_area_empty:
  assumes "(isDouble (rx r) \<and> rwidth r = 0 \<and> fmul (rx r) (real w) \<in> \<int>) \<or>
           (isDouble (ry r) \<and> rheight r = 0 \<and> fmul (ry r) (real h) \<in> \<int>)"
  shows "pixelRange r w h = {} \<and> missedRect data w h r missed = missed"
proof -
  have "xRange r w = {} \<or> yRange r h = {}"
    using assms xRange_zero_width [of r w] yRange_zero_height [of r h]
    by (auto simp: stride_floor_ceiling)
  then have e: "pixelRange r w h = {}" by (auto simp: pixelRange_def)
  then show ?thesis by (simp add: missedRect_card)
qed

lemma zero_width_off_grid:
  assumes "isDouble (rx r)" and "rwidth r = 0" and "fmul (rx r) (real w) \<notin> \<int>"
  shows "xRange r w = {\<lfloor>fmul (rx r) (real w)\<rfloor>}"
  using assms by (simp add: xRange_zero_width stride_floor_ceiling)

lemma zero_height_off_grid:
  assumes "isDouble (ry r)" and "rheight r = 0" and "fmul (ry r) (real h) \<notin> \<int>"
  shows "yRange r h = {\<lfloor>fmul (ry r) (real h)\<rfloor>}"
  using assms by (simp add: yRange_zero_height stride_floor_ceiling)

lemma empty_painted_pairs:
  assumes "\<forall>k. k mod 4 = 3 \<longrightarrow> cv_bytes c k = 0"
  shows "pixelData c ((y * int (cv_width c) + x) * 4 + 3) \<noteq> Some 0 \<longleftrightarrow>
         \<not> (0 \<le> y * int (cv_width c) + x \<and> y * int (cv_width c) + x < int (cv_width c) * int (cv_height c))"
proof (cases "0 \<le> y * int (cv_width c) + x \<and> y * int (cv_width c) + x < int (cv_width c) * int (cv_height c)")
  case True
  then obtain n where n: "y * int (cv_width c) + x = int n"
    using nonneg_int_cases by blast
  have "nat (int n * 4 + 3) = n * 4 + 3" by linarith
  then have "nat ((y * int (cv_width c) + x) * 4 + 3) mod 4 = 3"
    by (simp only: n) simp
  with assms have "cv_bytes c (nat ((y * int (cv_width c) + x) * 4 + 3)) = 0" by blast
  with True show ?thesis by (simp add: pixelData_def)
next
  case False
  then show ?thesis by (auto simp: pixelData_def)
qed

lemma grid_cell_in_array:
  assumes "0 \<le> x" "x < int w" "0 \<le> y" "y < int h"
  shows "0 \<le> y * int w + x \<and> y * int w + x < int w * int h"
  using grid_index_in_array [OF assms] by simp

lemma empty_painted_row:
  assumes "\<forall>k. k mod 4 = 3 \<longrightarrow> cv_bytes c k = 0"
    and "y \<in> strideSamples 0 (int (cv_height c))"
  shows "{x' \<in> strideSamples 0 (int (cv_width c)).
            pixelData c ((y * int (cv_width c) + x') * 4 + 3) \<noteq> Some 0 \<and> Q x'} = {}"
proof -
  have "pixelData c ((y * int (cv_width c) + x') * 4 + 3) = Some 0"
    if "x' \<in> strideSamples 0 (int (cv_width c))" for x'
    using empty_painted_pairs [OF assms(1), of y x']
      grid_cell_in_array [of x' "cv_width c" y "cv_height c"]
      strideSamples_bounds [OF that] strideSamples_bounds [OF assms(2)]
    by blast
  then show ?thesis by blast
qed

lemma empty_paintedRows:
  assumes "\<forall>k. k mod 4 = 3 \<longrightarrow> cv_bytes c k = 0"
  shows "paintedRows (pixelData c) rs (cv_width c) (cv_height c) 0 (0, 0) = (0, 0)"
proof -
  have a: "(\<Sum>y' \<in> strideSamples 0 (int (cv_height c)).
              card {x' \<in> strideSamples 0 (int (cv_width c)).
                      pixelData c ((y' * int (cv_width c) + x') * 4 + 3) \<noteq> Some 0 \<and> Q x' y'}) = 0"
    for Q
    by (intro sum.neutral ballI) (simp only: empty_painted_row [OF assms] card.empty)
  show ?thesis
    by (simp only: paintedRows_sum a fst_conv snd_conv) simp
qed

lemma empty_missed_rect:
  assumes "\<forall>k. k mod 4 = 3 \<longrightarrow> cv_bytes c k = 0"
  shows "{(x, y). (x, y) \<in> pixelRange r (cv_width c) (cv_height c) \<and>
                  pixelData c ((y * int (cv_width c) + x) * 4 + 3) = Some 0} =
         {(x, y). (x, y) \<in> pixelRange r (cv_width c) (cv_height c) \<and>
                  0 \<le> y * int (cv_width c) + x \<and>
                  y * int (cv_width c) + x < int (cv_width c) * int (cv_height c)}"
  using empty_painted_pairs [OF assms] by auto

lemma scaled_edges_inDocument:
  assumes "0 \<le> a" and "fadd a b \<le> 1" and "n < 2 ^ 32"
  shows "0 \<le> \<lfloor>fmul a (real n)\<rfloor> \<and> \<lceil>fmul (fadd a b) (real n)\<rceil> \<le> int n"
proof -
  have "0 \<le> fl (a * real n)" using assms(1) by (intro fl_nonneg) simp
  then have lo: "0 \<le> \<lfloor>fmul a (real n)\<rfloor>" by (simp add: fmul_def)
  have "fadd a b * real n \<le> 1 * real n" using assms(2) by (intro mult_right_mono) simp_all
  then have "fadd a b * real n \<le> of_int (int n)" by simp
  moreover have "int n \<le> 2 ^ 53"
  proof -
    have "n \<le> 2 ^ 53" using assms(3) by simp
    then show ?thesis by (metis of_nat_le_iff of_nat_numeral of_nat_power)
  qed
  ultimately have "fl (fadd a b * real n) \<le> of_int (int n)" by (intro fl_le_int) simp_all
  then have "\<lceil>fmul (fadd a b) (real n)\<rceil> \<le> int n"
    by (simp add: fmul_def ceiling_le_iff)
  with lo show ?thesis ..
qed

lemma inDocument_exact:
  assumes "0 \<le> rx r" and "0 \<le> ry r" and "rx r + rwidth r \<le> 1" and "ry r + rheight r \<le> 1"
  shows "inDocument r"
proof -
  have "fl (rx r + rwidth r) \<le> of_int 1" using assms(3) by (intro fl_le_int) simp_all
  moreover have "fl (ry r + rheight r) \<le> of_int 1" using assms(4) by (intro fl_le_int) simp_all
  ultimately show ?thesis using assms(1,2) by (simp add: inDocument_def fadd_def)
qed

lemma pixelRange_inDocument:
  assumes "inDocument r" and "w < 2 ^ 32" and "h < 2 ^ 32" and "(x, y) \<in> pixelRange r w h"
  shows "0 \<le> x \<and> x < int w \<and> 0 \<le> y \<and> y < int h"
proof -
  have x: "\<lfloor>fmul (rx r) (real w)\<rfloor> \<le> x" "x < \<lceil>fmul (fadd (rx r) (rwidth r)) (real w)\<rceil>"
    and y: "\<lfloor>fmul (ry r) (real h)\<rfloor> \<le> y" "y < \<lceil>fmul (fadd (ry r) (rheight r)) (real h)\<rceil>"
    using assms(4) by (auto simp: pixelRange_def xRange_def yRange_def dest: strideSamples_bounds)
  have "0 \<le> \<lfloor>fmul (rx r) (real w)\<rfloor> \<and> \<lceil>fmul (fadd (rx r) (rwidth r)) (real w)\<rceil> \<le> int w"
    using assms(1,2) by (intro scaled_edges_inDocument) (simp_all add: inDocument_def)
  moreover
  have "0 \<le> \<lfloor>fmul (ry r) (real h)\<rfloor> \<and> \<lceil>fmul (fadd (ry r) (rheight r)) (real h)\<rceil> \<le> int h"
    using assms(1,3) by (intro scaled_edges_inDocument) (simp_all add: inDocument_def)
  ultimately show ?thesis using x y by linarith
qed



lemma empty_missed_rect_inDocument:
  assumes "\<forall>k. k mod 4 = 3 \<longrightarrow> cv_bytes c k = 0" and "inDocument r" and "canvasSized c"
  shows "card {(x, y). (x, y) \<in> pixelRange r (cv_width c) (cv_height c) \<and>
                  pixelData c ((y * int (cv_width c) + x) * 4 + 3) = Some 0} =
         card (pixelRange r (cv_width c) (cv_height c))"
proof -
  have "{(x, y). (x, y) \<in> pixelRange r (cv_width c) (cv_height c) \<and>
                  pixelData c ((y * int (cv_width c) + x) * 4 + 3) = Some 0} =
        pixelRange r (cv_width c) (cv_height c)"
    unfolding empty_missed_rect [OF assms(1)]
    using pixelRange_inDocument [OF assms(2), of "cv_width c" "cv_height c"] assms(3)
      grid_cell_in_array
    by (auto simp: canvasSized_def simp del: of_nat_mult)
  then show ?thesis by simp
qed

section \<open>The scores of the concrete scene\<close>

lemmas double_eval = fadd_def fsub_def fmul_def fdiv_def fl_eval

lemma example_edges: "fmul 0 8 = 0" "fmul (fadd 0 (1 / 2)) 8 = 4"
  by (simp_all add: double_eval)

lemma example_inside: "inside (targetRects exampleMask) 8 8 0 0"
  by (simp add: exampleMask_def inside_def example_edges)

lemma example_painted:
  "paintedRows (pixelData exampleCanvas) (targetRects exampleMask) 8 8 0 (0, 0) = (1, 0)"
  by (simp add: exampleCanvas_def pixelData_def example_inside loop_simps step_def)

lemma example_missed:
  "missedRects (pixelData exampleCanvas) 8 8 (targetRects exampleMask) 0 = 0"
  by (simp add: exampleMask_def exampleCanvas_def pixelData_def missedRect_def example_edges
      loop_simps step_def)

lemma example_subtotal: "fsub (fsub (fmul 1 20) (fmul 0 (3 / 2))) (fmul 0 (1 / 2)) = 20"
  by (simp add: double_eval)










section \<open>Rects on the edge of a pixel and beyond the document\<close>

lemma literal_015: "fl (15 / 100) = 5404319552844595 / 36028797018963968"
  by (simp add: fl_eval)

lemma literal_01: "fl (1 / 10) = 3602879701896397 / 36028797018963968"
  by (simp add: fl_eval)

lemma literal_028: "fl (28 / 100) = 5044031582654956 / 18014398509481984"
  by (simp add: fl_eval)

lemma edgeRect_edges:
  "fmul (rx edgeRect) 10 = 3 / 2" "fmul (fadd (rx edgeRect) (rwidth edgeRect)) 10 = 3 / 2"
  "fmul (ry edgeRect) 10 = 3 / 2" "fmul (fadd (ry edgeRect) (rheight edgeRect)) 10 = 3 / 2"
  by (simp_all add: edgeRect_def literal_015 double_eval)

lemma edgeRect_missed: "missedRect (pixelData (resizeCanvas 10 10)) 10 10 edgeRect 0 = 1"
  by (simp add: missedRect_def Let_def edgeRect_edges missedRows.simps missedRow.simps
      pixelData_def resizeCanvas_def step_def)

lemma tenthRect_edge: "fmul (rx tenthRect) 10 = 1"
  by (simp add: tenthRect_def literal_01 double_eval)

lemma offRect_edge: "fmul (rx offRect) 25 = 7881299347898369 / 1125899906842624"
  by (simp add: offRect_def literal_028 double_eval)

lemma farRect_edges:
  "fmul (rx farRect) 8 = 4" "fmul (fadd (rx farRect) (rwidth farRect)) 8 = 12"
  "fmul (ry farRect) 8 = 4" "fmul (fadd (ry farRect) (rheight farRect)) 8 = 12"
  by (simp_all add: farRect_def double_eval)

lemma farRect_missed: "missedRects (pixelData (resizeCanvas 8 8)) 8 8 [farRect] 0 = 2"
  by (simp add: missedRect_def Let_def farRect_edges missedRows.simps missedRow.simps
      pixelData_def resizeCanvas_def step_def)

lemma farRect_range: "xRange farRect 8 = {4, 8}" "yRange farRect 8 = {4, 8}"
proof -
  have "strideSamples 4 12 = {4, 8}"
    by (simp add: strideSamples_rec strideSamples_empty step_def)
  then show "xRange farRect 8 = {4, 8}" "yRange farRect 8 = {4, 8}"
    by (simp_all add: xRange_def yRange_def farRect_edges)
qed

lemma farRect_card: "card (pixelRange farRect 8 8) = 4"
  by (simp add: card_pixelRange farRect_range)

lemma farRect_spec_missed: "spec_missed (resizeCanvas 8 8) [farRect] = 1"
proof -
  have "{(x, y). (x, y) \<in> pixelRange farRect 8 8 \<and> isUnpainted (resizeCanvas 8 8) x y} = {(4, 4)}"
    by (auto simp: pixelRange_def farRect_range isUnpainted_def resizeCanvas_def)
  then show ?thesis by (simp add: spec_missed_def resizeCanvas_def)
qed

lemma offRect_edge_off_grid: "fmul (rx offRect) 25 \<notin> \<int>"
proof
  assume "fmul (rx offRect) 25 \<in> \<int>"
  then obtain k :: int where k: "fmul (rx offRect) 25 = of_int k" by (auto elim: Ints_cases)
  then have "\<lfloor>fmul (rx offRect) 25\<rfloor> = k" by (simp only: floor_of_int)
  then have "k = 7" by (simp add: offRect_edge)
  with k show False by (simp add: offRect_edge)
qed

lemma rowRect_edge: "fmul (ry rowRect) 25 = 7881299347898369 / 1125899906842624"
  by (simp add: rowRect_def literal_028 double_eval)

lemma rowRect_edge_off_grid: "fmul (ry rowRect) 25 \<notin> \<int>"
proof
  assume "fmul (ry rowRect) 25 \<in> \<int>"
  then obtain k :: int where k: "fmul (ry rowRect) 25 = of_int k" by (auto elim: Ints_cases)
  then have "\<lfloor>fmul (ry rowRect) 25\<rfloor> = k" by (simp only: floor_of_int)
  then have "k = 7" by (simp add: rowRect_edge)
  with k show False by (simp add: rowRect_edge)
qed


section \<open>Claims about the scoring algorithm\<close>



text \<open>
  C3, as stated, fails: the pixel range of a rect runs from the floor of its scaled
  left edge to the ceiling of its scaled right edge, so a rect of zero width and height
  whose corner is not on a whole pixel still covers one pixel. On a cleared 10 by 10
  raster the rect at \<open>(0.15, 0.15)\<close> with zero width and height is sampled at pixel
  \<open>(1, 1)\<close> and adds 1 to the missed count.
\<close>

theorem C3_zero_area_rect_counterexample:
  "rwidth edgeRect = 0 \<and> rheight edgeRect = 0
   \<and> missedRect (pixelData (resizeCanvas 10 10)) 10 10 edgeRect 0 = 1"
  by (intro conjI edgeRect_missed) (simp_all add: edgeRect_def)

text \<open>
  C3, amended. A target rect of zero width whose scaled left edge, the double \<open>r.x * w\<close>
  that the engine computes, is a whole number, or of zero height whose scaled top edge
  \<open>r.y * h\<close> is a whole number, has an empty pixel range and adds nothing to the missed
  count, for every raster. Where the scaled edge is not a whole number, the range of a
  zero-width rect is the one pixel column that contains the edge, and the range of a
  zero-height rect the one pixel row: the rect is sampled there like any other.
\<close>

theorem C3_zero_area_rect:
  "((isDouble (rx r) \<and> rwidth r = 0 \<and> fmul (rx r) (real w) \<in> \<int>) \<or>
    (isDouble (ry r) \<and> rheight r = 0 \<and> fmul (ry r) (real h) \<in> \<int>) \<longrightarrow>
      pixelRange r w h = {} \<and> missedRect data w h r missed = missed)
   \<and> (isDouble (rx r) \<and> rwidth r = 0 \<and> fmul (rx r) (real w) \<notin> \<int> \<longrightarrow>
        xRange r w = {\<lfloor>fmul (rx r) (real w)\<rfloor>})
   \<and> (isDouble (ry r) \<and> rheight r = 0 \<and> fmul (ry r) (real h) \<notin> \<int> \<longrightarrow>
        yRange r h = {\<lfloor>fmul (ry r) (real h)\<rfloor>})"
  using zero_area_empty [of r w h data missed] zero_width_off_grid [of r w]
    zero_height_off_grid [of r h]
  by blast

theorem C3_zero_area_rect_witness:
  "isDouble (rx tenthRect) \<and> rwidth tenthRect = 0 \<and> fmul (rx tenthRect) (real 10) \<in> \<int>
   \<and> pixelRange tenthRect 10 10 = {}
   \<and> missedRect (pixelData (resizeCanvas 10 10)) 10 10 tenthRect 0 = 0
   \<and> isDouble (rx offRect) \<and> rwidth offRect = 0 \<and> fmul (rx offRect) (real 25) \<notin> \<int>
   \<and> xRange offRect 25 = {7}
   \<and> isDouble (ry rowRect) \<and> rheight rowRect = 0 \<and> fmul (ry rowRect) (real 25) \<notin> \<int>
   \<and> yRange rowRect 25 = {7}"
proof -
  have h: "isDouble (rx tenthRect) \<and> rwidth tenthRect = 0 \<and> fmul (rx tenthRect) (real 10) \<in> \<int>"
    by (simp add: tenthRect_edge) (simp add: tenthRect_def isDouble_fl)
  have a: "pixelRange tenthRect 10 10 = {}
           \<and> missedRect (pixelData (resizeCanvas 10 10)) 10 10 tenthRect 0 = 0"
    using C3_zero_area_rect [of tenthRect 10 10 "pixelData (resizeCanvas 10 10)" 0, THEN conjunct1] h
    by blast
  have g: "isDouble (rx offRect) \<and> rwidth offRect = 0 \<and> fmul (rx offRect) (real 25) \<notin> \<int>"
    using offRect_edge_off_grid by (simp add: offRect_def isDouble_fl)
  have b: "xRange offRect 25 = {\<lfloor>fmul (rx offRect) (real 25)\<rfloor>}"
    using C3_zero_area_rect [of offRect 25 25 "pixelData (resizeCanvas 25 25)" 0,
        THEN conjunct2, THEN conjunct1] g
    by blast
  have f: "\<lfloor>fmul (rx offRect) (real 25)\<rfloor> = 7" by (simp add: offRect_edge)
  have k: "isDouble (ry rowRect) \<and> rheight rowRect = 0 \<and> fmul (ry rowRect) (real 25) \<notin> \<int>"
    using rowRect_edge_off_grid by (simp add: rowRect_def isDouble_fl)
  have c: "yRange rowRect 25 = {\<lfloor>fmul (ry rowRect) (real 25)\<rfloor>}"
    using C3_zero_area_rect [of rowRect 25 25 "pixelData (resizeCanvas 25 25)" 0,
        THEN conjunct2, THEN conjunct2] k
    by blast
  have f': "\<lfloor>fmul (ry rowRect) (real 25)\<rfloor> = 7" by (simp add: rowRect_edge)
  from h a g b k c show ?thesis unfolding f f' by (intro conjI) (elim conjE, assumption)+
qed

text \<open>
  C6, as stated, fails for a target rect that reaches beyond the document: the missed
  pass reads the byte at \<open>(y * w + x) * 4 + 3\<close> for every sample of the pixel range and
  counts it when it is 0. On a cleared 8 by 8 raster the pixel range of the rect
  \<open>{x: 0.5, y: 0.5, width: 1, height: 1}\<close> has the four samples \<open>(4, 4)\<close>, \<open>(8, 4)\<close>,
  \<open>(4, 8)\<close> and \<open>(8, 8)\<close>, of which one is a pixel of the raster; the pass counts two:
  \<open>(4, 4)\<close>, and \<open>(8, 4)\<close>, whose index is the alpha byte of pixel \<open>(0, 5)\<close>; the indices of
  the other two lie past the data.
\<close>

theorem C6_empty_raster_counterexample:
  "missedRects (pixelData (resizeCanvas 8 8)) 8 8 [farRect] 0 = 2
   \<and> card (pixelRange farRect 8 8) = 4
   \<and> spec_missed (resizeCanvas 8 8) [farRect] = 1"
  by (intro conjI farRect_missed farRect_card farRect_spec_missed)

text \<open>
  C6, amended. On a raster whose alpha bytes are all 0, the painted pass counts nothing
  (\<open>correct = falsePositive = 0\<close>) and the missed pass counts, for each target rect, the
  stride samples of its pixel range whose index \<open>(y * w + x) * 4 + 3\<close> lies in the image
  data. For target rects within the document, on a raster of a canvas, these are all
  the stride samples of the pixel ranges, summed per rect.
\<close>

theorem C6_empty_raster:
  assumes "\<forall>k. k mod 4 = 3 \<longrightarrow> cv_bytes c k = 0"
  shows "paintedRows (pixelData c) rs (cv_width c) (cv_height c) 0 (0, 0) = (0, 0)
    \<and> missedRects (pixelData c) (cv_width c) (cv_height c) rs 0 =
        (\<Sum>r \<leftarrow> rs. card {(x, y). (x, y) \<in> pixelRange r (cv_width c) (cv_height c) \<and>
                                 0 \<le> y * int (cv_width c) + x \<and>
                                 y * int (cv_width c) + x < int (cv_width c) * int (cv_height c)})
    \<and> ((\<forall>r \<in> set rs. inDocument r) \<and> canvasSized c \<longrightarrow>
        missedRects (pixelData c) (cv_width c) (cv_height c) rs 0 =
          (\<Sum>r \<leftarrow> rs. card (pixelRange r (cv_width c) (cv_height c))))"
proof (intro conjI impI)
  show "paintedRows (pixelData c) rs (cv_width c) (cv_height c) 0 (0, 0) = (0, 0)"
    by (rule empty_paintedRows [OF assms])
  show "missedRects (pixelData c) (cv_width c) (cv_height c) rs 0 =
        (\<Sum>r \<leftarrow> rs. card {(x, y). (x, y) \<in> pixelRange r (cv_width c) (cv_height c) \<and>
                                 0 \<le> y * int (cv_width c) + x \<and>
                                 y * int (cv_width c) + x < int (cv_width c) * int (cv_height c)})"
    by (simp only: missedRects_card empty_missed_rect [OF assms])
  assume d: "(\<forall>r \<in> set rs. inDocument r) \<and> canvasSized c"
  have "map (\<lambda>r. card {(x, y). (x, y) \<in> pixelRange r (cv_width c) (cv_height c) \<and>
                  pixelData c ((y * int (cv_width c) + x) * 4 + 3) = Some 0}) rs =
             map (\<lambda>r. card (pixelRange r (cv_width c) (cv_height c))) rs"
  proof (rule map_cong [OF refl])
    fix r assume "r \<in> set rs"
    with d have "inDocument r" "canvasSized c" by blast+
    then show "card {(x, y). (x, y) \<in> pixelRange r (cv_width c) (cv_height c) \<and>
                  pixelData c ((y * int (cv_width c) + x) * 4 + 3) = Some 0} =
               card (pixelRange r (cv_width c) (cv_height c))"
      by (rule empty_missed_rect_inDocument [OF assms])
  qed
  then show "missedRects (pixelData c) (cv_width c) (cv_height c) rs 0 =
          (\<Sum>r \<leftarrow> rs. card (pixelRange r (cv_width c) (cv_height c)))"
    by (simp only: missedRects_card)
qed

theorem C6_empty_raster_witness:
  "(\<forall>k. cv_bytes (resizeCanvas 8 8) k = 0)
   \<and> inDocument \<lparr>rx = 0, ry = 0, rwidth = 1 / 2, rheight = 1 / 2\<rparr>
   \<and> canvasSized (resizeCanvas 8 8)
   \<and> paintedRows (pixelData (resizeCanvas 8 8)) [\<lparr>rx = 0, ry = 0, rwidth = 1 / 2, rheight = 1 / 2\<rparr>]
        8 8 0 (0, 0) = (0, 0)
   \<and> missedRects (pixelData (resizeCanvas 8 8)) 8 8
        [\<lparr>rx = 0, ry = 0, rwidth = 1 / 2, rheight = 1 / 2\<rparr>] 0 = 1"
proof -
  let ?r = "\<lparr>rx = 0, ry = 0, rwidth = 1 / 2, rheight = 1 / 2\<rparr>"
  have z: "\<forall>k. k mod 4 = 3 \<longrightarrow> cv_bytes (resizeCanvas 8 8) k = 0"
    by (simp add: resizeCanvas_def)
  have "inDocument ?r" by (rule inDocument_exact) simp_all
  then have d: "(\<forall>r \<in> set [?r]. inDocument r) \<and> canvasSized (resizeCanvas 8 8)"
    by (simp add: canvasSized_def resizeCanvas_def)
  have w: "cv_width (resizeCanvas 8 8) = 8" "cv_height (resizeCanvas 8 8) = 8"
    by (simp_all add: resizeCanvas_def)
  have "xRange ?r 8 = strideSamples 0 4" "yRange ?r 8 = strideSamples 0 4"
    by (simp_all add: xRange_def yRange_def example_edges)
  then have k: "card (pixelRange ?r 8 8) = 1"
    by (simp add: card_pixelRange card_strideSamples)
  have "paintedRows (pixelData (resizeCanvas 8 8)) [?r] 8 8 0 (0, 0) = (0, 0)
        \<and> missedRects (pixelData (resizeCanvas 8 8)) 8 8 [?r] 0 = (\<Sum>r \<leftarrow> [?r]. card (pixelRange r 8 8))"
    using C6_empty_raster [OF z, of "[?r]"] d unfolding w by blast
  with k d show ?thesis by (simp add: resizeCanvas_def)
qed

section \<open>The coordinate mapper and the strokes\<close>

lemma screenToDocument_eq:
  "screenToDocument L p =
     (if 0 \<le> (pt_x p - offsetX L) / drawWidth L \<and> (pt_x p - offsetX L) / drawWidth L \<le> 1 \<and>
         0 \<le> (pt_y p - offsetY L) / drawHeight L \<and> (pt_y p - offsetY L) / drawHeight L \<le> 1
      then Some \<lparr>pt_x = (pt_x p - offsetX L) / drawWidth L, pt_y = (pt_y p - offsetY L) / drawHeight L\<rparr>
      else None)"
  by (auto simp: screenToDocument_def Let_def)

lemma screenToDocument_inUnitSquare: "screenToDocument L p = Some d \<Longrightarrow> inUnitSquare d"
  by (auto simp: screenToDocument_eq inUnitSquare_def split: if_splits)

lemma computeLayout_positive:
  assumes "0 < rw" "0 < rh" "0 < img_width img" "0 < img_height img"
  shows "positiveLayout (computeLayout rw rh img)"
  using assms by (simp add: computeLayout_def Let_def positiveLayout_def min_def)

section \<open>What each handler leaves alone\<close>

lemma finishRound_strokes:
  "finishRound s = Inr s' \<Longrightarrow>
     strokes s' = strokes s \<and> layout s' = layout s \<and> imageLoaded s' = imageLoaded s
     \<and> docImage s' = docImage s"
  by (auto simp: finishRound_def Let_def split: sum.splits)

lemma update_strokes:
  "update dt s = Inr s' \<Longrightarrow>
     strokes s' = strokes s \<and> layout s' = layout s \<and> imageLoaded s' = imageLoaded s
     \<and> docImage s' = docImage s"
  by (auto simp: update_def Let_def split: if_splits sum.splits dest!: finishRound_strokes)

lemma loadNextMask_strokes:
  "loadNextMask s = Inr s' \<Longrightarrow>
     strokes s' = [] \<and> layout s' = layout s \<and> imageLoaded s' = imageLoaded s
     \<and> img_width (docImage s') = img_width (docImage s)
     \<and> img_height (docImage s') = img_height (docImage s)"
  unfolding loadNextMask_def loadDocument_def Let_def
  by (clarsimp split: if_splits)

lemma startStroke_inv: "strokesInDocument s \<Longrightarrow> startStroke fill p s = Inr s' \<Longrightarrow> strokesInDocument s'"
  unfolding startStroke_def strokesInDocument_def
  by (clarsimp split: option.splits dest!: screenToDocument_inUnitSquare)

lemma addStroke_inv: "strokesInDocument s \<Longrightarrow> addStroke fill p s = Inr s' \<Longrightarrow> strokesInDocument s'"
  unfolding addStroke_def strokesInDocument_def
  by (clarsimp split: option.splits dest!: screenToDocument_inUnitSquare)

lemma update_inv: "strokesInDocument s \<Longrightarrow> update dt s = Inr s' \<Longrightarrow> strokesInDocument s'"
  using update_strokes [of dt s s'] by (simp add: strokesInDocument_def)

lemma finishRound_inv: "strokesInDocument s \<Longrightarrow> finishRound s = Inr s' \<Longrightarrow> strokesInDocument s'"
  using finishRound_strokes [of s s'] by (simp add: strokesInDocument_def)

lemma loadNextMask_inv: "strokesInDocument s \<Longrightarrow> loadNextMask s = Inr s' \<Longrightarrow> strokesInDocument s'"
  using loadNextMask_strokes [of s s'] by (simp add: strokesInDocument_def)

lemma startRedaction_inv: "strokesInDocument s \<Longrightarrow> strokesInDocument (startRedaction s)"
  by (simp add: strokesInDocument_def startRedaction_def)

lemma exitGame_inv: "strokesInDocument s \<Longrightarrow> strokesInDocument (exitGame s)"
  by (simp add: strokesInDocument_def exitGame_def)

lemma onPointerDown_inv:
  assumes "strokesInDocument s" "onPointerDown fill p s = Inr s'"
  shows "strokesInDocument s'"
proof (cases "phase s")
  case Prompt
  with assms(2) have "s' = startRedaction s \<or> s' = s"
    by (simp add: onPointerDown_def split: if_splits)
  then show ?thesis using assms(1) startRedaction_inv by blast
next
  case Redacting
  with assms(2) have "finishRound s = Inr s' \<or> startStroke fill p s = Inr s'"
    by (simp add: onPointerDown_def split: if_splits)
  then show ?thesis using assms(1) startStroke_inv finishRound_inv by blast
next
  case Scoring
  with assms(2) have "loadNextMask s = Inr s' \<or> s' = exitGame s \<or> s' = s"
    by (simp add: onPointerDown_def split: if_splits)
  then show ?thesis using assms(1) loadNextMask_inv exitGame_inv by blast
qed

lemma onPointerMove_inv:
  "strokesInDocument s \<Longrightarrow> onPointerMove fill p s = Inr s' \<Longrightarrow> strokesInDocument s'"
  using addStroke_inv [of s fill p s'] by (auto simp: onPointerMove_def split: if_splits)

lemma onPointerUp_inv: "strokesInDocument s \<Longrightarrow> strokesInDocument (onPointerUp s)"
  by (simp add: strokesInDocument_def onPointerUp_def)

lemma onResize_inv:
  "strokesInDocument s \<Longrightarrow> 0 < rw \<Longrightarrow> 0 < rh \<Longrightarrow> strokesInDocument (onResize rw rh s)"
  using computeLayout_positive [of rw rh "docImage s"]
  by (simp add: strokesInDocument_def onResize_def)

lemma onload_inv:
  "strokesInDocument s \<Longrightarrow> 0 < natW \<Longrightarrow> 0 < natH \<Longrightarrow> 0 < rw \<Longrightarrow> 0 < rh \<Longrightarrow>
     strokesInDocument (onload natW natH rw rh s)"
  using computeLayout_positive [of rw rh "(docImage s)\<lparr>img_width := natW, img_height := natH\<rparr>"]
  by (simp add: strokesInDocument_def onload_def Let_def)

lemma resetGame_inv: "strokesInDocument s \<Longrightarrow> resetGame s = Inr s' \<Longrightarrow> strokesInDocument s'"
  unfolding resetGame_def
  by (erule loadNextMask_inv [rotated]) (simp add: strokesInDocument_def)

lemma dispatch_inv:
  assumes "strokesInDocument s" "positiveSizes e" "dispatch fill e s = Inr s'"
  shows "strokesInDocument s'"
proof (cases e)
  case (Update dt)
  with assms(3) have "update dt s = Inr s'" by simp
  with assms(1) show ?thesis by (rule update_inv)
next
  case (PointerDown p)
  with assms(3) have "onPointerDown fill p s = Inr s'" by simp
  with assms(1) show ?thesis by (rule onPointerDown_inv)
next
  case (PointerMove p)
  with assms(3) have "onPointerMove fill p s = Inr s'" by simp
  with assms(1) show ?thesis by (rule onPointerMove_inv)
next
  case PointerUp
  with assms(3) have "s' = onPointerUp s" by simp
  with assms(1) show ?thesis by (simp add: onPointerUp_inv)
next
  case (Resize rw rh)
  with assms(2,3) have "s' = onResize rw rh s" "0 < rw" "0 < rh" by simp_all
  with assms(1) show ?thesis by (simp add: onResize_inv)
next
  case (ImageLoaded natW natH rw rh)
  with assms(2,3) have "s' = onload natW natH rw rh s" "0 < natW" "0 < natH" "0 < rw" "0 < rh"
    by simp_all
  with assms(1) show ?thesis by (simp add: onload_inv)
next
  case Reset
  with assms(3) have "resetGame s = Inr s'" by simp
  with assms(1) show ?thesis by (rule resetGame_inv)
qed

lemma run_inv:
  "strokesInDocument s \<Longrightarrow> list_all positiveSizes es \<Longrightarrow> run fill es s = Inr s' \<Longrightarrow>
     strokesInDocument s'"
proof (induction es arbitrary: s)
  case Nil
  then show ?case by simp
next
  case (Cons e es)
  from Cons.prems(3) obtain s1 where d: "dispatch fill e s = Inr s1" and r: "run fill es s1 = Inr s'"
    by (auto split: sum.splits)
  from Cons.prems(1,2) d have "strokesInDocument s1" by (auto intro: dispatch_inv)
  with Cons.IH Cons.prems(2) r show ?case by simp
qed

lemma new_GameScene_inv: "new_GameScene ms = Inr s \<Longrightarrow> strokesInDocument s"
  unfolding new_GameScene_def
  by (erule loadNextMask_inv [rotated]) (simp add: strokesInDocument_def)

section \<open>The countdown and the end of a round\<close>

lemma calculateScore_nonneg: "calculateScore s = Inr v \<Longrightarrow> 0 \<le> v"
  unfolding calculateScore_def Let_def
  by (auto split: option.splits sum.splits prod.splits)

lemma calculateScore_defined:
  assumes "maskCurrent s = Some m" "0 < cv_width (coverageCanvas s)" "0 < cv_height (coverageCanvas s)"
  shows "\<exists>v. calculateScore s = Inr v"
  using assms unfolding calculateScore_def Let_def getImageData_def
  by (simp split: prod.splits)

lemma finishRound_result:
  assumes "finishRound s = Inr s'"
  shows "phase s' = Scoring \<and> timer s' = timer s \<and> totalScore s' = totalScore s + roundScore s'
         \<and> 0 \<le> roundScore s' \<and> calculateScore (s\<lparr>phase := Scoring\<rparr>) = Inr (roundScore s')
         \<and> onExit_calls s' = onExit_calls s"
proof -
  from assms obtain sc where sc: "calculateScore (s\<lparr>phase := Scoring\<rparr>) = Inr sc"
    and s': "s' = s\<lparr>phase := Scoring, roundScore := sc, totalScore := totalScore s + sc, needsRedraw := True\<rparr>"
    by (auto simp: finishRound_def Let_def split: sum.splits)
  from sc have "0 \<le> sc" by (rule calculateScore_nonneg)
  with sc s' show ?thesis by simp
qed

lemma finishRound_defined:
  assumes "maskCurrent s = Some m" "0 < cv_width (coverageCanvas s)" "0 < cv_height (coverageCanvas s)"
  shows "\<exists>s'. finishRound s = Inr s'"
proof -
  have "\<exists>v. calculateScore (s\<lparr>phase := Scoring\<rparr>) = Inr v"
    by (rule calculateScore_defined [of _ m]) (simp_all add: assms)
  then show ?thesis by (auto simp: finishRound_def Let_def)
qed

lemma update_idle: "phase s \<noteq> Redacting \<Longrightarrow> update dt s = Inr s"
  by (simp add: update_def)

lemma update_counting:
  assumes "phase s = Redacting" "0 < timer s - dt"
  shows "\<exists>nr. update dt s = Inr (s\<lparr>timer := timer s - dt, needsRedraw := nr\<rparr>)"
proof (cases "\<lceil>timer s - dt\<rceil> \<noteq> \<lceil>timer s\<rceil>")
  case True
  with assms have "update dt s = Inr (s\<lparr>timer := timer s - dt, needsRedraw := True\<rparr>)"
    by (simp add: update_def Let_def)
  then show ?thesis by blast
next
  case False
  with assms have "update dt s = Inr (s\<lparr>timer := timer s - dt, needsRedraw := needsRedraw s\<rparr>)"
    by (simp add: update_def Let_def)
  then show ?thesis by blast
qed

lemma update_fires:
  assumes "phase s = Redacting" "timer s - dt \<le> 0" "update dt s = Inr s'"
  shows "timer s' = 0 \<and> phase s' = Scoring \<and> totalScore s' = totalScore s + roundScore s'
         \<and> 0 \<le> roundScore s'"
proof -
  from assms obtain s2 where f: "finishRound (s\<lparr>timer := 0\<rparr>) = Inr s2"
    and s': "s' = s2 \<or> s' = s2\<lparr>needsRedraw := True\<rparr>"
    by (auto simp: update_def Let_def split: sum.splits if_splits)
  from finishRound_result [OF f] s' show ?thesis by auto
qed

lemma update_phase:
  assumes "phase s = Redacting" "update dt s = Inr s'"
  shows "(phase s' = Redacting \<and> totalScore s' = totalScore s \<and> 0 < timer s - dt)
       \<or> (phase s' = Scoring \<and> totalScore s' = totalScore s + roundScore s' \<and> 0 \<le> roundScore s'
          \<and> timer s' = 0 \<and> timer s - dt \<le> 0)"
proof (cases "timer s - dt \<le> 0")
  case True
  with update_fires [OF assms(1) True assms(2)] show ?thesis by simp
next
  case False
  then have "0 < timer s - dt" by simp
  from update_counting [OF assms(1) this] assms False show ?thesis by auto
qed

lemma updates_idle:
  "phase s \<noteq> Redacting \<Longrightarrow>
     run fill (map Update dts) s = Inr s \<and> scoringTransitions fill (map Update dts) s = 0"
  by (induction dts) (simp_all add: update_idle)

lemma updates_at_most_once: "scoringTransitions fill (map Update dts) s \<le> 1"
proof (induction dts arbitrary: s)
  case Nil
  show ?case by simp
next
  case (Cons dt dts)
  show ?case
  proof (cases "phase s = Redacting")
    case False
    then show ?thesis using updates_idle [of s fill "dt # dts"] by simp
  next
    case True
    show ?thesis
    proof (cases "update dt s")
      case (Inl e)
      then show ?thesis by simp
    next
      case (Inr s1)
      from update_phase [OF True Inr] show ?thesis
      proof
        assume "phase s1 = Redacting \<and> totalScore s1 = totalScore s \<and> 0 < timer s - dt"
        then show ?thesis using Inr Cons.IH [of s1] by simp
      next
        assume a: "phase s1 = Scoring \<and> totalScore s1 = totalScore s + roundScore s1 \<and> 0 \<le> roundScore s1
          \<and> timer s1 = 0 \<and> timer s - dt \<le> 0"
        then have "scoringTransitions fill (map Update dts) s1 = 0"
          using updates_idle [of s1 fill dts] by simp
        then show ?thesis using Inr by simp
      qed
    qed
  qed
qed

lemma updates_total:
  assumes "phase s = Redacting" "run fill (map Update dts) s = Inr s'"
  shows "(phase s' = Redacting \<and> totalScore s' = totalScore s
          \<and> scoringTransitions fill (map Update dts) s = 0)
       \<or> (phase s' = Scoring \<and> timer s' = 0 \<and> totalScore s' = totalScore s + roundScore s'
          \<and> scoringTransitions fill (map Update dts) s = 1)"
  using assms
proof (induction dts arbitrary: s)
  case Nil
  then show ?case by simp
next
  case (Cons dt dts)
  from Cons.prems(2) obtain s1 where u: "update dt s = Inr s1"
    and r: "run fill (map Update dts) s1 = Inr s'"
    by (auto split: sum.splits)
  from update_phase [OF Cons.prems(1) u] show ?case
  proof
    assume a: "phase s1 = Redacting \<and> totalScore s1 = totalScore s \<and> 0 < timer s - dt"
    with Cons.IH [of s1] r Cons.prems(1) u show ?thesis by auto
  next
    assume a: "phase s1 = Scoring \<and> totalScore s1 = totalScore s + roundScore s1 \<and> 0 \<le> roundScore s1
          \<and> timer s1 = 0 \<and> timer s - dt \<le> 0"
    with updates_idle [of s1 fill dts] r have "s' = s1"
      and "scoringTransitions fill (map Update dts) s1 = 0" by simp_all
    with a u Cons.prems(1) show ?thesis by simp
  qed
qed

lemma run_append:
  "run fill (es @ es') s = (case run fill es s of Inl err \<Rightarrow> Inl err | Inr s1 \<Rightarrow> run fill es' s1)"
  by (induction es arbitrary: s) (simp_all split: sum.splits)

lemma scoringTransitions_append:
  "run fill es s = Inr s1 \<Longrightarrow>
     scoringTransitions fill (es @ es') s
       = scoringTransitions fill es s + scoringTransitions fill es' s1"
  by (induction es arbitrary: s) (auto split: sum.splits)

lemma countdown:
  assumes "phase s = Redacting" "real k < timer s"
  shows "\<exists>nr. run fill (replicate k (Update 1)) s = Inr (s\<lparr>timer := timer s - real k, needsRedraw := nr\<rparr>)
           \<and> scoringTransitions fill (replicate k (Update 1)) s = 0"
  using assms
proof (induction k arbitrary: s)
  case 0
  show ?case by (intro exI [of _ "needsRedraw s"]) simp
next
  case (Suc k)
  from Suc.prems have "0 < timer s - 1" by simp
  from update_counting [OF Suc.prems(1) this] obtain nr1
    where u: "update 1 s = Inr (s\<lparr>timer := timer s - 1, needsRedraw := nr1\<rparr>)" by blast
  let ?s1 = "s\<lparr>timer := timer s - 1, needsRedraw := nr1\<rparr>"
  have "phase ?s1 = Redacting" "real k < timer ?s1" using Suc.prems by simp_all
  from Suc.IH [OF this] obtain nr
    where r: "run fill (replicate k (Update 1)) ?s1 = Inr (?s1\<lparr>timer := timer ?s1 - real k, needsRedraw := nr\<rparr>)"
      and t: "scoringTransitions fill (replicate k (Update 1)) ?s1 = 0" by blast
  have e: "?s1\<lparr>timer := timer ?s1 - real k, needsRedraw := nr\<rparr>
           = s\<lparr>timer := timer s - real (Suc k), needsRedraw := nr\<rparr>"
    by (simp add: algebra_simps)
  show ?case
    using u r t Suc.prems(1) unfolding e by (intro exI [of _ nr]) simp
qed

lemma thirty_ticks:
  assumes "timeLimit s0 = 30" "maskCurrent s0 = Some m"
    and "0 < cv_width (coverageCanvas s0)" "0 < cv_height (coverageCanvas s0)"
  shows "k < 30 \<Longrightarrow>
           \<exists>s'. run fill (replicate k (Update 1)) (startRedaction s0) = Inr s' \<and> phase s' = Redacting
               \<and> scoringTransitions fill (replicate k (Update 1)) (startRedaction s0) = 0"
    and "30 \<le> k \<Longrightarrow>
           \<exists>s'. run fill (replicate k (Update 1)) (startRedaction s0) = Inr s' \<and> phase s' = Scoring
               \<and> timer s' = 0 \<and> totalScore s' = totalScore s0 + roundScore s'
               \<and> scoringTransitions fill (replicate k (Update 1)) (startRedaction s0) = 1"
proof -
  let ?s = "startRedaction s0"
  have p: "phase ?s = Redacting" and t: "timer ?s = 30" and ts: "totalScore ?s = totalScore s0"
    using assms(1) by (simp_all add: startRedaction_def)
  {
    assume "k < 30"
    then have "real k < timer ?s" using t by simp
    from countdown [OF p this, of fill]
    show "\<exists>s'. run fill (replicate k (Update 1)) ?s = Inr s' \<and> phase s' = Redacting
               \<and> scoringTransitions fill (replicate k (Update 1)) ?s = 0"
      using p by auto
  }
  {
    assume k: "30 \<le> k"
    have "real 29 < timer ?s" using t by simp
    from countdown [OF p this, of fill] obtain nr
      where r29: "run fill (replicate 29 (Update 1)) ?s = Inr (?s\<lparr>timer := 1, needsRedraw := nr\<rparr>)"
        and t29: "scoringTransitions fill (replicate 29 (Update 1)) ?s = 0" by (auto simp: t)
    let ?s29 = "?s\<lparr>timer := 1, needsRedraw := nr\<rparr>"
    have p29: "phase ?s29 = Redacting" and le: "timer ?s29 - 1 \<le> 0" using p t by simp_all
    have "\<exists>s2. finishRound (?s29\<lparr>timer := timer ?s29 - 1, timer := 0\<rparr>) = Inr s2"
      by (rule finishRound_defined [of _ m]) (simp_all add: assms startRedaction_def clearRect_def)
    then obtain s30 where u: "update 1 ?s29 = Inr s30"
      using p29 le by (auto simp: update_def Let_def)
    from update_fires [OF p29 le u]
    have f: "timer s30 = 0" "phase s30 = Scoring" "totalScore s30 = totalScore s0 + roundScore s30"
      using ts by simp_all
    have split: "replicate k (Update 1) = replicate 29 (Update 1) @ Update 1 # replicate (k - 30) (Update 1)"
    proof -
      have "k = 29 + Suc (k - 30)" using k by simp
      then have "replicate k (Update (1::real)) = replicate (29 + Suc (k - 30)) (Update 1)" by simp
      also have "\<dots> = replicate 29 (Update 1) @ Update 1 # replicate (k - 30) (Update 1)"
        by (simp only: replicate_add replicate_Suc)
      finally show ?thesis .
    qed
    have idle: "run fill (replicate (k - 30) (Update 1)) s30 = Inr s30"
      "scoringTransitions fill (replicate (k - 30) (Update 1)) s30 = 0"
      using updates_idle [of s30 fill "replicate (k - 30) 1"] f(2) by simp_all
    have "run fill (replicate k (Update 1)) ?s = Inr s30"
      unfolding split by (simp add: run_append r29 u idle)
    moreover have "scoringTransitions fill (replicate k (Update 1)) ?s = 1"
      unfolding split by (simp add: scoringTransitions_append [OF r29] t29 u idle p29 f)
    ultimately
    show "\<exists>s'. run fill (replicate k (Update 1)) ?s = Inr s' \<and> phase s' = Scoring
               \<and> timer s' = 0 \<and> totalScore s' = totalScore s0 + roundScore s'
               \<and> scoringTransitions fill (replicate k (Update 1)) ?s = 1"
      using f by simp
  }
qed

section \<open>The total score along a run\<close>

lemma startStroke_frame:
  "startStroke fill p s = Inr s' \<Longrightarrow> phase s' = phase s \<and> totalScore s' = totalScore s"
  unfolding startStroke_def by (clarsimp split: option.splits)

lemma addStroke_frame:
  "addStroke fill p s = Inr s' \<Longrightarrow> phase s' = phase s \<and> totalScore s' = totalScore s"
  unfolding addStroke_def by (clarsimp split: option.splits)

lemma loadNextMask_frame:
  "loadNextMask s = Inr s' \<Longrightarrow> phase s' = Prompt \<and> totalScore s' = totalScore s"
  unfolding loadNextMask_def loadDocument_def Let_def by (clarsimp split: if_splits)

lemma onPointerDown_total:
  assumes "onPointerDown fill p s = Inr s'" "\<not> activatesExit p s"
  shows "totalScore s' =
           totalScore s + (if phase s = Redacting \<and> phase s' = Scoring then roundScore s' else 0)
         \<and> (phase s = Redacting \<and> phase s' = Scoring \<longrightarrow> 0 \<le> roundScore s')"
proof (cases "phase s")
  case Prompt
  with assms(1) have "s' = startRedaction s \<or> s' = s"
    by (simp add: onPointerDown_def split: if_splits)
  with Prompt show ?thesis by (auto simp: startRedaction_def)
next
  case Redacting
  with assms(1) have "finishRound s = Inr s' \<or> startStroke fill p s = Inr s'"
    by (simp add: onPointerDown_def split: if_splits)
  then show ?thesis
  proof
    assume "finishRound s = Inr s'"
    from finishRound_result [OF this] Redacting show ?thesis by simp
  next
    assume "startStroke fill p s = Inr s'"
    from startStroke_frame [OF this] Redacting show ?thesis by simp
  qed
next
  case Scoring
  with assms have "loadNextMask s = Inr s' \<or> s' = s"
    by (simp add: onPointerDown_def activatesExit_def split: if_splits)
  with Scoring loadNextMask_frame [of s s'] show ?thesis by auto
qed

lemma update_total:
  assumes "update dt s = Inr s'"
  shows "totalScore s' =
           totalScore s + (if phase s = Redacting \<and> phase s' = Scoring then roundScore s' else 0)
         \<and> (phase s = Redacting \<and> phase s' = Scoring \<longrightarrow> 0 \<le> roundScore s')"
proof (cases "phase s = Redacting")
  case True
  from update_phase [OF True assms] True show ?thesis by auto
next
  case False
  with assms update_idle [OF False, of dt] show ?thesis by simp
qed

lemma onPointerMove_total:
  assumes "onPointerMove fill p s = Inr s'"
  shows "phase s' = phase s \<and> totalScore s' = totalScore s"
proof -
  from assms have "s' = s \<or> addStroke fill p s = Inr s'"
    by (simp add: onPointerMove_def split: if_splits)
  with addStroke_frame [of fill p s s'] show ?thesis by auto
qed

lemma dispatch_total:
  assumes "dispatch fill e s = Inr s'" "\<not> resets e s"
  shows "totalScore s' =
           totalScore s + (if phase s = Redacting \<and> phase s' = Scoring then roundScore s' else 0)
         \<and> (phase s = Redacting \<and> phase s' = Scoring \<longrightarrow> 0 \<le> roundScore s')"
proof (cases e)
  case (Update dt)
  with assms(1) have "update dt s = Inr s'" by simp
  then show ?thesis by (rule update_total)
next
  case (PointerDown p)
  with assms have "onPointerDown fill p s = Inr s'" "\<not> activatesExit p s" by simp_all
  then show ?thesis by (rule onPointerDown_total)
next
  case (PointerMove p)
  with assms(1) have "onPointerMove fill p s = Inr s'" by simp
  from onPointerMove_total [OF this] show ?thesis by auto
next
  case PointerUp
  with assms(1) show ?thesis by (auto simp: onPointerUp_def)
next
  case (Resize rw rh)
  with assms(1) show ?thesis by (auto simp: onResize_def)
next
  case (ImageLoaded natW natH rw rh)
  with assms(1) show ?thesis by (auto simp: onload_def Let_def)
next
  case Reset
  with assms(2) show ?thesis by simp
qed

lemma dispatch_reset_zero:
  assumes "dispatch fill e s = Inr s'" "resets e s"
  shows "totalScore s' = 0"
proof (cases e)
  case (PointerDown p)
  with assms have "s' = exitGame s"
    by (simp add: onPointerDown_def activatesExit_def)
  then show ?thesis by (simp add: exitGame_def)
next
  case Reset
  with assms(1) have "loadNextMask (s\<lparr>roundScore := 0, totalScore := 0, currentMaskIndex := 0,
      strokes := [], coverageCanvas := clearRect (coverageCanvas s)\<rparr>) = Inr s'"
    by (simp add: resetGame_def)
  from loadNextMask_frame [OF this] show ?thesis by simp
qed (use assms(2) in simp_all)

lemma run_total:
  assumes "run fill es s = Inr s'" "noReset fill es s"
  shows "totalScore s' = totalScore s + sum_list (roundScores fill es s)
         \<and> list_all (\<lambda>v. 0 \<le> v) (roundScores fill es s)"
  using assms
proof (induction es arbitrary: s)
  case Nil
  then show ?case by simp
next
  case (Cons e es)
  from Cons.prems(1) obtain s1 where d: "dispatch fill e s = Inr s1" and r: "run fill es s1 = Inr s'"
    by (auto split: sum.splits)
  from Cons.prems(2) d have n: "\<not> resets e s" "noReset fill es s1" by simp_all
  from Cons.IH [OF r n(2)] dispatch_total [OF d n(1)] d show ?case by simp
qed

section \<open>The layout does not reach the score\<close>

lemma calculateScore_layout: "calculateScore (s\<lparr>layout := l\<rparr>) = calculateScore s"
  by (simp add: calculateScore_def Let_def split: option.splits sum.splits prod.splits)

lemma finishRound_layout:
  "finishRound s = Inr t \<Longrightarrow> finishRound (s\<lparr>layout := l\<rparr>) = Inr (t\<lparr>layout := l\<rparr>)"
proof -
  assume f: "finishRound s = Inr t"
  have c: "calculateScore (s\<lparr>layout := l, phase := Scoring\<rparr>) = calculateScore (s\<lparr>phase := Scoring\<rparr>)"
    by (simp add: calculateScore_def Let_def split: option.splits sum.splits prod.splits)
  from f show ?thesis
    by (auto simp: finishRound_def Let_def c split: sum.splits)
qed

lemma addStroke_layout:
  assumes "layout s = Some L1" "screenToDocument L1 p1 = screenToDocument L2 p2"
    and "addStroke fill p1 s = Inr s'"
  shows "addStroke fill p2 (s\<lparr>layout := Some L2\<rparr>) = Inr (s'\<lparr>layout := Some L2\<rparr>) \<and> layout s' = Some L1"
  using assms unfolding addStroke_def by (auto split: option.splits)

lemma onPointerMove_layout:
  assumes "layout s = Some L1" "screenToDocument L1 p1 = screenToDocument L2 p2"
    and "onPointerMove fill p1 s = Inr s'"
  shows "onPointerMove fill p2 (s\<lparr>layout := Some L2\<rparr>) = Inr (s'\<lparr>layout := Some L2\<rparr>)
         \<and> layout s' = Some L1"
proof (cases "\<not> isDrawing s \<or> phase s \<noteq> Redacting")
  case True
  with assms show ?thesis by (auto simp: onPointerMove_def)
next
  case False
  with assms(3) have "addStroke fill p1 s = Inr s'" by (simp add: onPointerMove_def)
  from addStroke_layout [OF assms(1,2) this] False show ?thesis by (simp add: onPointerMove_def)
qed

lemma moves_layout:
  assumes "layout s = Some L1" "map (screenToDocument L1) ps1 = map (screenToDocument L2) ps2"
    and "run fill (map PointerMove ps1) s = Inr s'"
  shows "run fill (map PointerMove ps2) (s\<lparr>layout := Some L2\<rparr>) = Inr (s'\<lparr>layout := Some L2\<rparr>)"
  using assms
proof (induction ps1 arbitrary: ps2 s)
  case Nil
  then show ?case by simp
next
  case (Cons p1 ps1)
  from Cons.prems(2) obtain p2 ps2' where ps2: "ps2 = p2 # ps2'"
    and h: "screenToDocument L1 p1 = screenToDocument L2 p2"
    and t: "map (screenToDocument L1) ps1 = map (screenToDocument L2) ps2'"
    by (cases ps2) auto
  from Cons.prems(3) obtain s1 where m: "onPointerMove fill p1 s = Inr s1"
    and r: "run fill (map PointerMove ps1) s1 = Inr s'"
    by (auto split: sum.splits)
  from onPointerMove_layout [OF Cons.prems(1) h m]
  have m2: "onPointerMove fill p2 (s\<lparr>layout := Some L2\<rparr>) = Inr (s1\<lparr>layout := Some L2\<rparr>)"
    and l1: "layout s1 = Some L1" by simp_all
  from Cons.IH [OF l1 t r] m2 show ?case by (simp add: ps2)
qed

section \<open>The concrete scene, evaluated\<close>

lemma example_expired_score:
  assumes "maskCurrent s = Some exampleMask" "coverageCanvas s = exampleCanvas"
    and "phase s = Scoring" "timer s = 0"
  shows "calculateScore s = Inr 20"
proof -
  have d: "cv_width exampleCanvas = 8" "cv_height exampleCanvas = 8"
    by (simp_all add: exampleCanvas_def)
  have b: "fadd 20 (fmul (fmul 20 0) (1 / 2)) = 20"
    by (simp add: double_eval)
  show ?thesis
    by (simp add: calculateScore_def assms getImageData_def d example_painted example_missed
        example_subtotal fdiv_def b Math_round_def)
qed

lemma example_last_tick:
  "\<exists>s'. update 1 exampleRedacting = Inr s' \<and> phase s' = Scoring \<and> timer s' = 0
        \<and> roundScore s' = 20 \<and> totalScore s' = 65"
proof -
  have p: "phase exampleRedacting = Redacting" and t: "timer exampleRedacting - 1 \<le> 0"
    and ts: "totalScore exampleRedacting = 45"
    by (simp_all add: exampleRedacting_def exampleScene_def)
  let ?s0 = "exampleRedacting\<lparr>timer := timer exampleRedacting - 1, timer := 0\<rparr>"
  have m: "maskCurrent exampleRedacting = Some exampleMask"
    and c: "coverageCanvas exampleRedacting = exampleCanvas"
    by (simp_all add: exampleRedacting_def exampleScene_def)
  have "\<exists>s2. finishRound ?s0 = Inr s2"
    by (rule finishRound_defined [of _ exampleMask])
       (simp_all add: exampleRedacting_def exampleScene_def exampleCanvas_def)
  then obtain s2 where f: "finishRound ?s0 = Inr s2" by blast
  then obtain s' where u: "update 1 exampleRedacting = Inr s'"
    using p t by (auto simp: update_def Let_def)
  have "calculateScore (?s0\<lparr>phase := Scoring\<rparr>) = Inr 20"
    by (rule example_expired_score) (simp_all add: m c)
  with finishRound_result [OF f] have r2: "roundScore s2 = 20" by simp
  from u f p t have "s' = s2 \<or> s' = s2\<lparr>needsRedraw := True\<rparr>"
    by (auto simp: update_def Let_def split: if_splits)
  then have "roundScore s' = 20" using r2 by auto
  with update_fires [OF p t u] ts u show ?thesis by simp
qed

lemma example_moves:
  "\<exists>s'. run exampleFill [PointerMove \<lparr>pt_x = 4, pt_y = 8\<rparr>, PointerMove \<lparr>pt_x = 20, pt_y = 8\<rparr>]
           exampleRedacting = Inr s'
        \<and> strokes s' = [\<lparr>pt_x = 1 / 4, pt_y = 1 / 2\<rparr>]"
  by (simp add: onPointerMove_def addStroke_def screenToDocument_def exampleRedacting_def
      exampleScene_def Let_def)

section \<open>The exit callback in the wired program\<close>

lemma callback_4:
  "app_current a = Some GameSceneId \<Longrightarrow>
   onExit_callback (Suc (Suc (Suc (Suc 0)))) a =
     Returned (a\<lparr>app_notified := app_notified a + 2, app_current := Some MenuSceneId\<rparr>)"
  by simp

lemma callback_5:
  "app_current a = Some GameSceneId \<Longrightarrow>
   onExit_callback (Suc (Suc (Suc (Suc (Suc 0))))) a =
     Returned (a\<lparr>app_notified := app_notified a + 3, app_current := Some MenuSceneId\<rparr>)"
  by simp

lemma callback_step:
  assumes "app_current a = Some GameSceneId"
    and "onExit_callback d (a\<lparr>app_notified := app_notified a + 1\<rparr>) =
           Returned (a\<lparr>app_notified := app_notified a + 1 + n, app_current := Some MenuSceneId\<rparr>)"
  shows "onExit_callback (Suc (Suc d)) a =
           Returned (a\<lparr>app_notified := app_notified a + (n + 1), app_current := Some MenuSceneId\<rparr>)"
  using assms by simp


lemma callback_deep:
  "app_current a = Some GameSceneId \<Longrightarrow>
   onExit_callback (Suc (Suc (Suc (Suc d)))) a =
     Returned (a\<lparr>app_notified := app_notified a + (d + 5) div 2, app_current := Some MenuSceneId\<rparr>)"
proof (induction d arbitrary: a rule: less_induct)
  case (less d)
  show ?case
  proof (cases d)
    case 0
    have "(0 + 5) div 2 = (2::nat)" by simp
    with callback_4 [OF less.prems] show ?thesis unfolding 0 by (simp only:)
  next
    case (Suc d1)
    show ?thesis
    proof (cases d1)
      case 0
      have "(Suc 0 + 5) div 2 = (3::nat)" by simp
      with callback_5 [OF less.prems] show ?thesis unfolding Suc 0 by (simp only:)
    next
      case d2: (Suc d2)
      let ?a1 = "a\<lparr>app_notified := app_notified a + 1\<rparr>"
      have c: "app_current ?a1 = Some GameSceneId" using less.prems by simp
      have "d2 < d" using Suc d2 by simp
      from less.IH [OF this c]
      have "onExit_callback (Suc (Suc (Suc (Suc d2)))) ?a1 =
            Returned (a\<lparr>app_notified := app_notified a + 1 + (d2 + 5) div 2,
                       app_current := Some MenuSceneId\<rparr>)"
        by simp
      from callback_step [OF less.prems this]
      have "onExit_callback (Suc (Suc (Suc (Suc (Suc (Suc d2)))))) a =
            Returned (a\<lparr>app_notified := app_notified a + ((d2 + 5) div 2 + 1),
                       app_current := Some MenuSceneId\<rparr>)" .
      moreover have "(d2 + 5) div 2 + 1 = (Suc (Suc d2) + 5) div 2" by simp
      ultimately show ?thesis unfolding Suc d2 by (simp only:)
    qed
  qed
qed

lemma wired_exitGame_returns:
  assumes "app_current a = Some GameSceneId" and "4 \<le> d"
  shows "wired_exitGame d a =
         Returned (a\<lparr>app_scene := exitGame (app_scene a),
                    app_notified := app_notified a + (d + 1) div 2,
                    app_current := Some MenuSceneId\<rparr>)"
proof -
  from assms(2) have "d = Suc (Suc (Suc (Suc (d - 4))))" by simp
  then obtain k where k: "d = Suc (Suc (Suc (Suc k)))" ..
  have e: "(k + 5) div 2 = (d + 1) div 2" using k by simp
  have c: "app_current (a\<lparr>app_scene := exitGame (app_scene a)\<rparr>) = Some GameSceneId"
    using assms(1) by simp
  show ?thesis
    unfolding wired_exitGame_def k callback_deep [OF c] e [unfolded k] by simp
qed

lemma drawUI_buttons:
  assumes "phase s = Scoring"
  shows "hits (continueButton (drawUI w h s)) p \<longleftrightarrow>
           w / 2 - 70 \<le> pt_x p \<and> pt_x p \<le> w / 2 + 70 \<and> h / 2 - 20 \<le> pt_y p \<and> pt_y p \<le> h / 2 + 20"
    and "hits (exitButton (drawUI w h s)) p \<longleftrightarrow>
           w / 2 - 70 \<le> pt_x p \<and> pt_x p \<le> w / 2 + 70 \<and>
           h * (57 / 100) - 20 \<le> pt_y p \<and> pt_y p \<le> h * (57 / 100) + 20"
  using assms unfolding drawUI_def drawButton_def hits_def pointInRect_def
  by (simp_all, linarith+)

lemma loadNextMask_scores:
  "loadNextMask s = Inr s' \<Longrightarrow>
   totalScore s' = totalScore s \<and> roundScore s' = roundScore s \<and> onExit_calls s' = onExit_calls s"
  unfolding loadNextMask_def loadDocument_def Let_def by (clarsimp split: if_splits)

lemma exampleLow_buttons:
  "phase exampleLow = Scoring"
  "hits (exitButton exampleLow) \<lparr>pt_x = 200, pt_y = 268\<rparr>"
  "hits (continueButton exampleLow) \<lparr>pt_x = 200, pt_y = 268\<rparr>"
  by (simp_all add: exampleLow_def render_def drawUI_def drawButton_def exampleScene_def hits_def
      pointInRect_def)

lemma exampleLow_continue:
  "onPointerDown exampleFill \<lparr>pt_x = 200, pt_y = 268\<rparr> exampleLow = loadNextMask exampleLow"
  using exampleLow_buttons by (simp add: onPointerDown_def)

lemma exampleLow_next:
  "map_sum id totalScore (loadNextMask exampleLow) = Inr 45"
  "map_sum id onExit_calls (loadNextMask exampleLow) = Inr 0"
  by (simp_all add: exampleLow_def render_def drawUI_def exampleScene_def loadNextMask_def
      loadDocument_def Let_def)

lemma exampleApp_exit:
  "wired_exitGame 10000 exampleApp =
     Returned (exampleApp\<lparr>app_scene := exitGame exampleScene, app_notified := 5000,
                          app_current := Some MenuSceneId\<rparr>)"
proof -
  have "app_current exampleApp = Some GameSceneId" "app_scene exampleApp = exampleScene"
    "app_notified exampleApp = 0"
    by (simp_all add: exampleApp_def)
  with wired_exitGame_returns [of exampleApp 10000] show ?thesis by simp
qed

section \<open>The order of the masks\<close>

lemma loadNextMask_at:
  assumes "i = (if currentMaskIndex s \<ge> length (masks s) then 0 else currentMaskIndex s)"
    and "i < length (masks s)"
  shows "\<exists>s'. loadNextMask s = Inr s' \<and> maskCurrent s' = Some (masks s ! i)
              \<and> currentMaskIndex s' = i + 1 \<and> masks s' = masks s"
  using assms unfolding loadNextMask_def loadDocument_def Let_def by simp

lemma loadNextMask_masks: "loadNextMask s = Inr s' \<Longrightarrow> masks s' = masks s"
  unfolding loadNextMask_def loadDocument_def Let_def by (clarsimp split: if_splits)

lemma loadNextMask_wrap:
  assumes "length (masks s) \<le> currentMaskIndex s"
  shows "loadNextMask s = loadNextMask (s\<lparr>currentMaskIndex := 0\<rparr>)"
  using assms unfolding loadNextMask_def loadDocument_def Let_def by simp

lemma presentedMasks_wrap:
  assumes "length (masks s) \<le> currentMaskIndex s"
  shows "presentedMasks n s = presentedMasks n (s\<lparr>currentMaskIndex := 0\<rparr>)"
  by (cases n) (simp_all add: loadNextMask_wrap [OF assms])

lemma presentedMasks_run:
  assumes "currentMaskIndex s = i" "i + n \<le> length (masks s)"
  shows "\<exists>s'. masks s' = masks s \<and> currentMaskIndex s' = i + n
           \<and> (\<forall>k. presentedMasks (n + k) s = take n (drop i (masks s)) @ presentedMasks k s')"
  using assms
proof (induction n arbitrary: s i)
  case 0
  then show ?case by (intro exI [of _ s]) simp
next
  case (Suc n)
  from Suc.prems have i: "i < length (masks s)"
    and e: "i = (if currentMaskIndex s \<ge> length (masks s) then 0 else currentMaskIndex s)"
    by simp_all
  from loadNextMask_at [OF e i] obtain s1 where l: "loadNextMask s = Inr s1"
    and m: "maskCurrent s1 = Some (masks s ! i)" and c: "currentMaskIndex s1 = i + 1"
    and ms: "masks s1 = masks s" by blast
  from Suc.prems have "i + 1 + n \<le> length (masks s1)" by (simp add: ms)
  from Suc.IH [OF c this] obtain s' where s': "masks s' = masks s1"
    "currentMaskIndex s' = i + 1 + n"
    and p: "\<forall>k. presentedMasks (n + k) s1 = take n (drop (i + 1) (masks s1)) @ presentedMasks k s'"
    by blast
  have t: "take (Suc n) (drop i (masks s)) = masks s ! i # take n (drop (i + 1) (masks s))"
    using i by (simp add: Cons_nth_drop_Suc [symmetric])
  have "presentedMasks (Suc n + k) s = take (Suc n) (drop i (masks s)) @ presentedMasks k s'" for k
    using l m p ms by (simp add: t)
  with s' ms show ?case by (intro exI [of _ s']) simp
qed

lemma presentedMasks_pass:
  assumes "masks s \<noteq> []"
    and "currentMaskIndex s = 0 \<or> length (masks s) \<le> currentMaskIndex s"
  shows "presentedMasks (length (masks s)) s = masks s"
    and "presentedMasks (2 * length (masks s)) s = masks s @ masks s"
proof -
  let ?N = "length (masks s)"
  let ?s0 = "s\<lparr>currentMaskIndex := 0\<rparr>"
  have w: "presentedMasks n s = presentedMasks n ?s0" for n
  proof (cases "currentMaskIndex s = 0")
    case True
    have "s\<lparr>currentMaskIndex := currentMaskIndex s\<rparr> = s" by simp
    then have "?s0 = s" unfolding True .
    then show ?thesis by (simp only:)
  next
    case False
    with assms(2) show ?thesis by (intro presentedMasks_wrap) simp
  qed
  have "currentMaskIndex ?s0 = 0" "0 + ?N \<le> length (masks ?s0)" by simp_all
  from presentedMasks_run [OF this] obtain s1 where s1: "masks s1 = masks s" "currentMaskIndex s1 = ?N"
    and p1: "\<forall>k. presentedMasks (?N + k) ?s0 = masks s @ presentedMasks k s1" by auto
  from p1 [rule_format, of 0] show "presentedMasks ?N s = masks s" by (simp add: w)
  let ?s2 = "s1\<lparr>currentMaskIndex := 0\<rparr>"
  have w1: "presentedMasks n s1 = presentedMasks n ?s2" for n
    using presentedMasks_wrap [of s1 n] s1 by simp
  have "currentMaskIndex ?s2 = 0" "0 + ?N \<le> length (masks ?s2)" using s1 by simp_all
  from presentedMasks_run [OF this] obtain s3
    where p2: "\<forall>k. presentedMasks (?N + k) ?s2 = masks s @ presentedMasks k s3"
    using s1 by auto
  from p2 [rule_format, of 0] have "presentedMasks ?N s1 = masks s" by (simp add: w1)
  with p1 [rule_format, of ?N] show "presentedMasks (2 * ?N) s = masks s @ masks s"
    by (simp add: w mult_2)
qed

lemma draw_le:
  assumes "0 \<le> u" "u < 1"
  shows "nat \<lfloor>u * real (i + 1)\<rfloor> \<le> i"
proof -
  have "u * real (i + 1) < 1 * real (i + 1)"
    using assms by (intro mult_strict_right_mono) simp_all
  then have "\<lfloor>u * real (i + 1)\<rfloor> < int (i + 1)"
    by (simp add: floor_less_iff)
  then show ?thesis by simp
qed

lemma length_shuffleLoop [simp]: "length (shuffleLoop rnd k i arr) = length arr"
  by (induction rnd k i arr rule: shuffleLoop.induct) (simp_all add: Let_def)

lemma mset_shuffleLoop:
  "unitInterval rnd \<Longrightarrow> i < length arr \<Longrightarrow> mset (shuffleLoop rnd k i arr) = mset arr"
proof (induction rnd k i arr rule: shuffleLoop.induct)
  case (1 rnd k arr)
  show ?case by simp
next
  case (2 rnd k i' arr)
  let ?j = "nat \<lfloor>rnd k * real (Suc i' + 1)\<rfloor>"
  have u: "0 \<le> rnd k" "rnd k < 1" using "2.prems"(1) by (simp_all add: unitInterval_def)
  have j: "?j \<le> Suc i'" using draw_le [OF u, of "Suc i'"] by simp
  with "2.prems"(2) have jl: "?j < length arr" by simp
  have a: "mset (arr[Suc i' := arr ! ?j, ?j := arr ! Suc i']) = mset arr"
    using mset_swap [OF jl "2.prems"(2)] .
  have "i' < length (arr[Suc i' := arr ! ?j, ?j := arr ! Suc i'])"
    using "2.prems"(2) by simp
  from "2.IH" [OF refl refl "2.prems"(1) this] a show ?case by (simp add: Let_def)
qed

lemma length_shuffleMasks [simp]: "length (shuffleMasks rnd ms) = length ms"
  by (simp add: shuffleMasks_def)

lemma mset_shuffleMasks: "unitInterval rnd \<Longrightarrow> mset (shuffleMasks rnd ms) = mset ms"
  by (cases "ms = []") (simp_all add: shuffleMasks_def mset_shuffleLoop)

lemma finishRound4_index:
  assumes "finishRound4 rnd s = Inr s'"
  shows "g4_mask s' = g4_mask s
    \<and> (if g4_currentMaskIndex s + 1 < length (g4_allMasks s)
        then g4_currentMaskIndex s' = g4_currentMaskIndex s + 1 \<and> g4_allMasks s' = g4_allMasks s
        else g4_currentMaskIndex s' = 0 \<and> g4_allMasks s' = shuffleMasks rnd (g4_allMasks s))"
  using assms unfolding finishRound4_def Let_def
  by (auto split: sum.splits if_splits)

lemma startPrompt4_mask:
  assumes "startPrompt4 s = Inr s'"
  shows "g4_currentMaskIndex s < length (g4_allMasks s)
    \<and> g4_mask s' = Some (g4_allMasks s ! g4_currentMaskIndex s)
    \<and> g4_currentMaskIndex s' = g4_currentMaskIndex s \<and> g4_allMasks s' = g4_allMasks s"
  using assms unfolding startPrompt4_def loadCurrentMask4_def Let_def
  by (auto split: sum.splits if_splits)

lemma rounds4_pass:
  assumes "g4_currentMaskIndex s = i" "i < length (g4_allMasks s)"
    and "g4_mask s = Some (g4_allMasks s ! i)"
    and "i + length rnds \<le> length (g4_allMasks s)"
    and "rounds4 rnds s = Inr (shown, s')"
  shows "shown = map Some (take (length rnds) (drop i (g4_allMasks s)))
    \<and> (if i + length rnds < length (g4_allMasks s)
        then g4_currentMaskIndex s' = i + length rnds \<and> g4_allMasks s' = g4_allMasks s
        else g4_currentMaskIndex s' = 0 \<and> g4_allMasks s' = shuffleMasks (last rnds) (g4_allMasks s))"
  using assms
proof (induction rnds arbitrary: s i shown)
  case Nil
  then show ?case by simp
next
  case (Cons rnd rnds)
  from Cons.prems(5) obtain s1 s2 shown' where f: "finishRound4 rnd s = Inr s1"
    and p: "startPrompt4 s1 = Inr s2" and r: "rounds4 rnds s2 = Inr (shown', s')"
    and sh: "shown = g4_mask s # shown'"
    by (auto split: sum.splits prod.splits)
  have t: "take (Suc (length rnds)) (drop i (g4_allMasks s))
           = g4_allMasks s ! i # take (length rnds) (drop (i + 1) (g4_allMasks s))"
    using Cons.prems(2) by (simp add: Cons_nth_drop_Suc [symmetric])
  show ?case
  proof (cases "i + 1 < length (g4_allMasks s)")
    case True
    with finishRound4_index [OF f] Cons.prems(1)
    have s1: "g4_currentMaskIndex s1 = i + 1" "g4_allMasks s1 = g4_allMasks s" by simp_all
    with startPrompt4_mask [OF p]
    have s2: "g4_currentMaskIndex s2 = i + 1" "g4_allMasks s2 = g4_allMasks s"
      "g4_mask s2 = Some (g4_allMasks s2 ! (i + 1))" by simp_all
    have "i + 1 + length rnds \<le> length (g4_allMasks s2)" using Cons.prems(4) s2 by simp
    from Cons.IH [OF s2(1) _ s2(3) this r] True s2
    have "shown' = map Some (take (length rnds) (drop (i + 1) (g4_allMasks s)))
      \<and> (if i + 1 + length rnds < length (g4_allMasks s)
          then g4_currentMaskIndex s' = i + 1 + length rnds \<and> g4_allMasks s' = g4_allMasks s
          else g4_currentMaskIndex s' = 0 \<and> g4_allMasks s' = shuffleMasks (last rnds) (g4_allMasks s))"
      by simp
    moreover have "rnds \<noteq> []" if "\<not> i + 1 + length rnds < length (g4_allMasks s)"
      using that True by auto
    ultimately show ?thesis using sh Cons.prems(3) t by (auto split: if_splits)
  next
    case False
    with Cons.prems(2,4) have e: "rnds = []" by (cases rnds) auto
    from False finishRound4_index [OF f] Cons.prems(1)
    have s1: "g4_currentMaskIndex s1 = 0" "g4_allMasks s1 = shuffleMasks rnd (g4_allMasks s)"
      by simp_all
    with startPrompt4_mask [OF p]
    have s2: "g4_currentMaskIndex s2 = 0" "g4_allMasks s2 = shuffleMasks rnd (g4_allMasks s)"
      by simp_all
    from r e have "shown' = []" "s' = s2" by simp_all
    with s2 sh Cons.prems(3) False e t show ?thesis by simp
  qed
qed

lemma calculateScore4_defined:
  assumes "g4_mask s = Some m" "0 < cv_width (g4_coverageCanvas s)" "0 < cv_height (g4_coverageCanvas s)"
  shows "\<exists>v. calculateScore4 s = Inr v"
  using assms unfolding calculateScore4_def Let_def getImageData_def
  by (simp split: prod.splits)

lemma finishRound4_defined:
  assumes "g4_mask s = Some m" "0 < cv_width (g4_coverageCanvas s)" "0 < cv_height (g4_coverageCanvas s)"
  shows "\<exists>s'. finishRound4 rnd s = Inr s' \<and> g4_coverageCanvas s' = g4_coverageCanvas s"
proof -
  have "\<exists>v. calculateScore4 (s\<lparr>g4_phase := Scoring\<rparr>) = Inr v"
    by (rule calculateScore4_defined [of _ m]) (simp_all add: assms)
  then show ?thesis by (auto simp: finishRound4_def Let_def)
qed

lemma startPrompt4_defined:
  assumes "g4_currentMaskIndex s < length (g4_allMasks s)"
  shows "\<exists>s'. startPrompt4 s = Inr s' \<and> g4_coverageCanvas s' = g4_coverageCanvas s"
  using assms by (simp add: startPrompt4_def loadCurrentMask4_def Let_def)

lemma exampleScene4_pass:
  "\<exists>shown t'. rounds4 [\<lambda>k. 0, \<lambda>k. 0] exampleScene4 = Inr (shown, t')"
proof -
  have c: "g4_coverageCanvas exampleScene4 = exampleCanvas"
    and m: "g4_mask exampleScene4 = Some exampleMask"
    and i: "g4_currentMaskIndex exampleScene4 = 0"
    and a: "g4_allMasks exampleScene4 = [exampleMask, secondMask]"
    by (simp_all add: exampleScene4_def)
  have d: "0 < cv_width exampleCanvas" "0 < cv_height exampleCanvas"
    by (simp_all add: exampleCanvas_def)
  from finishRound4_defined [of exampleScene4 exampleMask "\<lambda>k. 0"] m c d
  obtain s1 where f1: "finishRound4 (\<lambda>k. 0) exampleScene4 = Inr s1"
    and c1: "g4_coverageCanvas s1 = exampleCanvas" by auto
  from finishRound4_index [OF f1] i a
  have i1: "g4_currentMaskIndex s1 = 1" "g4_allMasks s1 = [exampleMask, secondMask]" by simp_all
  from startPrompt4_defined [of s1] i1 c1
  obtain s2 where p1: "startPrompt4 s1 = Inr s2" and c2: "g4_coverageCanvas s2 = exampleCanvas"
    by auto
  from startPrompt4_mask [OF p1] i1
  have i2: "g4_currentMaskIndex s2 = 1" "g4_allMasks s2 = [exampleMask, secondMask]"
    "g4_mask s2 = Some secondMask" by simp_all
  from finishRound4_defined [of s2 secondMask "\<lambda>k. 0"] i2 c2 d
  obtain s3 where f2: "finishRound4 (\<lambda>k. 0) s2 = Inr s3" by auto
  from finishRound4_index [OF f2] i2
  have i3: "g4_currentMaskIndex s3 = 0" "length (g4_allMasks s3) = 2" by simp_all
  from startPrompt4_defined [of s3] i3
  obtain s4 where p2: "startPrompt4 s3 = Inr s4" by auto
  show ?thesis using f1 p1 f2 p2 by simp
qed

lemma example_shuffle: "shuffleMasks (\<lambda>k. 0) [exampleMask, secondMask] = [secondMask, exampleMask]"
  by (simp add: shuffleMasks_def Let_def)

lemma shuffleLoop_Suc:
  "shuffleLoop rnd k (Suc i) arr =
     shuffleLoop rnd (k + 1) i (arr[Suc i := arr ! draw rnd k (Suc i), draw rnd k (Suc i) := arr ! Suc i])"
  by (simp add: Let_def draw_def)

lemma draw_le_i: "unitInterval rnd \<Longrightarrow> draw rnd k i \<le> i"
  unfolding draw_def using draw_le [of "rnd k" i] by (simp add: unitInterval_def)

lemma shuffleLoop_above:
  "unitInterval rnd \<Longrightarrow> i < p \<Longrightarrow> p < length arr \<Longrightarrow> shuffleLoop rnd k i arr ! p = arr ! p"
proof (induction i arbitrary: k arr)
  case 0
  show ?case by simp
next
  case (Suc i)
  let ?j = "draw rnd k (Suc i)"
  have j: "?j \<le> Suc i" using Suc.prems(1) by (rule draw_le_i)
  have "shuffleLoop rnd (k + 1) i (arr[Suc i := arr ! ?j, ?j := arr ! Suc i]) ! p
        = (arr[Suc i := arr ! ?j, ?j := arr ! Suc i]) ! p"
    using Suc.prems by (intro Suc.IH) simp_all
  also have "\<dots> = arr ! p" using Suc.prems j by simp
  finally show ?case by (simp only: shuffleLoop_Suc)
qed

lemma shuffleLoop_top:
  assumes "unitInterval rnd" "Suc i < length arr"
  shows "shuffleLoop rnd k (Suc i) arr ! Suc i = arr ! draw rnd k (Suc i)"
proof -
  let ?j = "draw rnd k (Suc i)"
  have j: "?j \<le> Suc i" using assms(1) by (rule draw_le_i)
  have "shuffleLoop rnd (k + 1) i (arr[Suc i := arr ! ?j, ?j := arr ! Suc i]) ! Suc i
        = (arr[Suc i := arr ! ?j, ?j := arr ! Suc i]) ! Suc i"
    using assms by (intro shuffleLoop_above) simp_all
  also have "\<dots> = arr ! ?j" using assms(2) j by (cases "?j = Suc i") simp_all
  finally show ?thesis by (simp only: shuffleLoop_Suc)
qed

lemma distinct_swap:
  assumes "distinct arr" "i < length arr" "j < length arr"
  shows "distinct (arr[i := arr ! j, j := arr ! i])"
proof -
  have "mset (arr[i := arr ! j, j := arr ! i]) = mset arr"
    using mset_swap [OF assms(3,2)] .
  from mset_eq_imp_distinct_iff [OF this] assms(1) show ?thesis by blast
qed

lemma shuffleLoop_draws_determined:
  "unitInterval rnd \<Longrightarrow> unitInterval rnd' \<Longrightarrow> distinct arr \<Longrightarrow> i < length arr \<Longrightarrow>
   shuffleLoop rnd k i arr = shuffleLoop rnd' k i arr \<Longrightarrow>
   m < i \<Longrightarrow> draw rnd (k + m) (i - m) = draw rnd' (k + m) (i - m)"
proof (induction i arbitrary: k arr m)
  case 0
  then show ?case by simp
next
  case (Suc i)
  let ?j = "draw rnd k (Suc i)" and ?j' = "draw rnd' k (Suc i)"
  have j: "?j \<le> Suc i" "?j' \<le> Suc i" using Suc.prems(1,2) by (simp_all add: draw_le_i)
  have "arr ! ?j = shuffleLoop rnd k (Suc i) arr ! Suc i"
    using shuffleLoop_top [OF Suc.prems(1,4)] by simp
  also have "\<dots> = arr ! ?j'"
    using shuffleLoop_top [OF Suc.prems(2,4)] Suc.prems(5) by simp
  finally have e: "?j = ?j'"
    using nth_eq_iff_index_eq [OF Suc.prems(3), of ?j ?j'] Suc.prems(4) j by simp
  show ?case
  proof (cases m)
    case 0
    with e show ?thesis by simp
  next
    case (Suc m')
    let ?arr1 = "arr[Suc i := arr ! ?j, ?j := arr ! Suc i]"
    have d: "distinct ?arr1" using Suc.prems(3,4) j by (intro distinct_swap) simp_all
    have l: "i < length ?arr1" using Suc.prems(4) by simp
    have s: "shuffleLoop rnd (k + 1) i ?arr1 = shuffleLoop rnd' (k + 1) i ?arr1"
      using Suc.prems(5) e by (simp only: shuffleLoop_Suc)
    have "m' < i" using Suc Suc.prems(6) by simp
    from Suc.IH [OF Suc.prems(1,2) d l s this] Suc show ?thesis by simp
  qed
qed

lemma shuffleLoop_cong:
  fixes arr :: "'a list"
  shows "(\<And>m. k \<le> m \<Longrightarrow> rnd m = rnd' m) \<Longrightarrow>
         shuffleLoop rnd k i arr = shuffleLoop rnd' k i arr"
proof (induction i arbitrary: k arr)
  case 0
  show ?case by simp
next
  case (Suc i)
  have "draw rnd k (Suc i) = draw rnd' k (Suc i)" using Suc.prems [of k] by (simp add: draw_def)
  moreover have "shuffleLoop rnd (k + 1) i a = shuffleLoop rnd' (k + 1) i a" for a :: "'a list"
    by (rule Suc.IH) (use Suc.prems in simp)
  ultimately show ?case by (simp only: shuffleLoop_Suc)
qed

lemma draw_choice:
  assumes "j \<le> i"
  shows "0 \<le> real j / real (i + 1)" "real j / real (i + 1) < 1"
    "nat \<lfloor>real j / real (i + 1) * real (i + 1)\<rfloor> = j"
  using assms by simp_all

lemma shuffleLoop_reaches:
  "distinct arr \<Longrightarrow> i < length arr \<Longrightarrow> mset ys = mset arr \<Longrightarrow>
   (\<And>p. i < p \<Longrightarrow> p < length arr \<Longrightarrow> ys ! p = arr ! p) \<Longrightarrow>
   \<exists>rnd. unitInterval rnd \<and> shuffleLoop rnd k i arr = ys"
proof (induction i arbitrary: k arr)
  case 0
  have len: "length ys = length arr" using "0.prems"(3) by (metis size_mset)
  have dy: "distinct ys" using mset_eq_imp_distinct_iff [OF "0.prems"(3)] "0.prems"(1) by blast
  have "ys ! p = arr ! p" if "p < length arr" for p
  proof (cases p)
    case (Suc p')
    with that "0.prems"(4) show ?thesis by simp
  next
    case 0
    have "ys ! 0 \<in> set arr" using "0.prems"(2,3) len by (metis nth_mem set_mset_mset)
    then obtain q where q: "q < length arr" "arr ! q = ys ! 0" by (auto simp: in_set_conv_nth)
    have "q = 0"
    proof (rule ccontr)
      assume "q \<noteq> 0"
      then have "ys ! q = arr ! q" using q(1) "0.prems"(4) by simp
      with q have "ys ! q = ys ! 0" by simp
      moreover have "q < length ys" "0 < length ys" using q(1) len by auto
      ultimately show False using nth_eq_iff_index_eq [OF dy, of q 0] \<open>q \<noteq> 0\<close> by blast
    qed
    with q 0 show ?thesis by simp
  qed
  then have "arr = ys" using len by (simp add: list_eq_iff_nth_eq)
  moreover have "unitInterval (\<lambda>k. 0)" by (simp add: unitInterval_def)
  ultimately show ?case by (intro exI [of _ "\<lambda>k. 0"]) simp
next
  case (Suc i)
  have len: "length ys = length arr" using Suc.prems(3) by (metis size_mset)
  have dy: "distinct ys" using mset_eq_imp_distinct_iff [OF Suc.prems(3)] Suc.prems(1) by blast
  have "ys ! Suc i \<in> set arr" using Suc.prems(2,3) len by (metis nth_mem set_mset_mset)
  then obtain j where j: "j < length arr" "arr ! j = ys ! Suc i" by (auto simp: in_set_conv_nth)
  have ji: "j \<le> Suc i"
  proof (rule ccontr)
    assume "\<not> j \<le> Suc i"
    then have "Suc i < j" by simp
    then have "ys ! j = arr ! j" using j(1) Suc.prems(4) by simp
    with j have "ys ! j = ys ! Suc i" by simp
    with nth_eq_iff_index_eq [OF dy, of j "Suc i"] j(1) len Suc.prems(2) \<open>Suc i < j\<close>
    show False by simp
  qed
  let ?arr1 = "arr[Suc i := arr ! j, j := arr ! Suc i]"
  have d1: "distinct ?arr1" using Suc.prems(1,2) j(1) by (intro distinct_swap) simp_all
  have l1: "i < length ?arr1" using Suc.prems(2) by simp
  have m1: "mset ys = mset ?arr1" using mset_swap [OF j(1) Suc.prems(2)] Suc.prems(3) by simp
  have a1: "ys ! p = ?arr1 ! p" if "i < p" "p < length ?arr1" for p
  proof (cases "p = Suc i")
    case True
    then show ?thesis using j Suc.prems(2) by (cases "j = Suc i") simp_all
  next
    case False
    with that have "Suc i < p" by simp
    then show ?thesis using that ji Suc.prems(4) by simp
  qed
  from Suc.IH [OF d1 l1 m1 a1, of "k + 1"] obtain rnd'
    where u': "unitInterval rnd'" and s': "shuffleLoop rnd' (k + 1) i ?arr1 = ys" by blast
  let ?rnd = "rnd'(k := real j / real (Suc i + 1))"
  have u: "unitInterval ?rnd"
    using u' draw_choice(1,2) [OF ji] by (simp add: unitInterval_def)
  have dj: "draw ?rnd k (Suc i) = j"
    using draw_choice(3) [OF ji] by (simp add: draw_def)
  have "shuffleLoop ?rnd (k + 1) i ?arr1 = shuffleLoop rnd' (k + 1) i ?arr1"
    by (rule shuffleLoop_cong) simp
  with s' dj have "shuffleLoop ?rnd k (Suc i) arr = ys"
    by (simp only: shuffleLoop_Suc)
  with u show ?case by blast
qed

lemma shuffleMasks_reaches:
  assumes "distinct ms" "mset ys = mset ms"
  shows "\<exists>rnd. unitInterval rnd \<and> shuffleMasks rnd ms = ys"
proof (cases "ms = []")
  case True
  moreover have "unitInterval (\<lambda>k. 0)" by (simp add: unitInterval_def)
  ultimately show ?thesis using assms(2) by (intro exI [of _ "\<lambda>k. 0"]) (simp add: shuffleMasks_def)
next
  case False
  then have "length ms - 1 < length ms" by simp
  from shuffleLoop_reaches [OF assms(1) this assms(2), of 0] show ?thesis
    by (simp add: shuffleMasks_def)
qed

lemma shuffleMasks_draws_determined:
  assumes "unitInterval rnd" "unitInterval rnd'" "distinct ms"
    and "shuffleMasks rnd ms = shuffleMasks rnd' ms" and "k < length ms - 1"
  shows "draw rnd k (length ms - 1 - k) = draw rnd' k (length ms - 1 - k)"
proof -
  have "length ms - 1 < length ms" using assms(5) by simp
  from shuffleLoop_draws_determined [OF assms(1-3) this, of 0 k] assms(4,5) show ?thesis
    by (simp add: shuffleMasks_def)
qed

section \<open>Claims about the round state machine and the coordinate mapper\<close>

text \<open>
  C2. An update that drives the timer of the Redacting phase to 0 or below leaves the
  timer at exactly 0, in the Scoring phase, with the round score added to the total
  once; every later update changes nothing. A run of updates, whatever their steps,
  makes the Redacting-to-Scoring transition at most once, and then the total has grown
  by exactly the round score. With a time limit of 30 and a step of 1 from the start of
  the redaction, the scene is still Redacting after each of the first 29 ticks and is
  Scoring from the 30th on, after exactly one transition.
\<close>

theorem C2_round_end_once:
  "(phase s = Redacting \<and> timer s - dt \<le> 0 \<and> update dt s = Inr s' \<longrightarrow>
      timer s' = 0 \<and> phase s' = Scoring \<and> totalScore s' = totalScore s + roundScore s'
      \<and> update dt' s' = Inr s')
   \<and> scoringTransitions fill (map Update dts) s \<le> 1
   \<and> (phase s = Redacting \<and> run fill (map Update dts) s = Inr s'' \<longrightarrow>
        (phase s'' = Redacting \<and> totalScore s'' = totalScore s
           \<and> scoringTransitions fill (map Update dts) s = 0)
        \<or> (phase s'' = Scoring \<and> timer s'' = 0 \<and> totalScore s'' = totalScore s + roundScore s''
           \<and> scoringTransitions fill (map Update dts) s = 1))
   \<and> (timeLimit s0 = 30 \<and> maskCurrent s0 = Some m
        \<and> 0 < cv_width (coverageCanvas s0) \<and> 0 < cv_height (coverageCanvas s0) \<longrightarrow>
        (\<forall>k. \<exists>s1. run fill (replicate k (Update 1)) (startRedaction s0) = Inr s1
           \<and> (if k < 30
               then phase s1 = Redacting
                    \<and> scoringTransitions fill (replicate k (Update 1)) (startRedaction s0) = 0
               else phase s1 = Scoring \<and> timer s1 = 0
                    \<and> totalScore s1 = totalScore s0 + roundScore s1
                    \<and> scoringTransitions fill (replicate k (Update 1)) (startRedaction s0) = 1)))"
proof (intro conjI impI allI)
  assume a: "phase s = Redacting \<and> timer s - dt \<le> 0 \<and> update dt s = Inr s'"
  then have f: "timer s' = 0 \<and> phase s' = Scoring \<and> totalScore s' = totalScore s + roundScore s'
         \<and> 0 \<le> roundScore s'"
    using update_fires [of s dt s'] by blast
  then show "timer s' = 0" "phase s' = Scoring" "totalScore s' = totalScore s + roundScore s'"
    by simp_all
  from f show "update dt' s' = Inr s'" by (simp add: update_idle)
next
  show "scoringTransitions fill (map Update dts) s \<le> 1" by (rule updates_at_most_once)
next
  assume "phase s = Redacting \<and> run fill (map Update dts) s = Inr s''"
  then show "(phase s'' = Redacting \<and> totalScore s'' = totalScore s
           \<and> scoringTransitions fill (map Update dts) s = 0)
        \<or> (phase s'' = Scoring \<and> timer s'' = 0 \<and> totalScore s'' = totalScore s + roundScore s''
           \<and> scoringTransitions fill (map Update dts) s = 1)"
    using updates_total [of s fill dts s''] by blast
next
  fix k
  assume a: "timeLimit s0 = 30 \<and> maskCurrent s0 = Some m
        \<and> 0 < cv_width (coverageCanvas s0) \<and> 0 < cv_height (coverageCanvas s0)"
  show "\<exists>s1. run fill (replicate k (Update 1)) (startRedaction s0) = Inr s1
           \<and> (if k < 30
               then phase s1 = Redacting
                    \<and> scoringTransitions fill (replicate k (Update 1)) (startRedaction s0) = 0
               else phase s1 = Scoring \<and> timer s1 = 0
                    \<and> totalScore s1 = totalScore s0 + roundScore s1
                    \<and> scoringTransitions fill (replicate k (Update 1)) (startRedaction s0) = 1)"
  proof (cases "k < 30")
    case True
    from thirty_ticks(1) [of s0 m k fill] a True show ?thesis by auto
  next
    case False
    then have "30 \<le> k" by simp
    from thirty_ticks(2) [of s0 m k fill] a this False show ?thesis by auto
  qed
qed

theorem C2_round_end_once_witness:
  "timeLimit exampleScene = 30 \<and> maskCurrent exampleScene = Some exampleMask
   \<and> 0 < cv_width (coverageCanvas exampleScene) \<and> 0 < cv_height (coverageCanvas exampleScene)
   \<and> (\<exists>s1. run exampleFill (replicate 29 (Update 1)) (startRedaction exampleScene) = Inr s1
          \<and> phase s1 = Redacting
          \<and> scoringTransitions exampleFill (replicate 29 (Update 1)) (startRedaction exampleScene) = 0)
   \<and> (\<exists>s1. run exampleFill (replicate 30 (Update 1)) (startRedaction exampleScene) = Inr s1
          \<and> phase s1 = Scoring \<and> timer s1 = 0
          \<and> totalScore s1 = totalScore exampleScene + roundScore s1
          \<and> scoringTransitions exampleFill (replicate 30 (Update 1)) (startRedaction exampleScene) = 1)
   \<and> phase exampleRedacting = Redacting \<and> timer exampleRedacting - 1 \<le> 0
   \<and> (\<exists>s'. update 1 exampleRedacting = Inr s' \<and> timer s' = 0 \<and> phase s' = Scoring
          \<and> totalScore s' = totalScore exampleRedacting + roundScore s'
          \<and> update 1 s' = Inr s')"
proof -
  have h: "timeLimit exampleScene = 30 \<and> maskCurrent exampleScene = Some exampleMask
   \<and> 0 < cv_width (coverageCanvas exampleScene) \<and> 0 < cv_height (coverageCanvas exampleScene)"
    by (simp add: exampleScene_def exampleCanvas_def)
  have g: "phase exampleRedacting = Redacting \<and> timer exampleRedacting - 1 \<le> 0"
    by (simp add: exampleRedacting_def exampleScene_def)
  from example_last_tick obtain s' where u: "update 1 exampleRedacting = Inr s'" by blast
  note c = C2_round_end_once [of exampleRedacting 1 s' 1 exampleFill "[]" exampleRedacting
      exampleScene exampleMask]
  note c1 = c [THEN conjunct1, rule_format]
  note c4 = c [THEN conjunct2, THEN conjunct2, THEN conjunct2, rule_format, OF h]
  have lt: "(29::nat) < 30" and ge: "\<not> (30::nat) < 30" by simp_all
  have k29: "\<exists>s1. run exampleFill (replicate 29 (Update 1)) (startRedaction exampleScene) = Inr s1
          \<and> phase s1 = Redacting
          \<and> scoringTransitions exampleFill (replicate 29 (Update 1)) (startRedaction exampleScene) = 0"
    using c4 [of 29] unfolding if_P [OF lt] .
  have k30: "\<exists>s1. run exampleFill (replicate 30 (Update 1)) (startRedaction exampleScene) = Inr s1
          \<and> phase s1 = Scoring \<and> timer s1 = 0
          \<and> totalScore s1 = totalScore exampleScene + roundScore s1
          \<and> scoringTransitions exampleFill (replicate 30 (Update 1)) (startRedaction exampleScene) = 1"
    using c4 [of 30] unfolding if_not_P [OF ge] .
  have f: "timer s' = 0 \<and> phase s' = Scoring
          \<and> totalScore s' = totalScore exampleRedacting + roundScore s'
          \<and> update 1 s' = Inr s'"
    by (rule c1) (intro conjI g [THEN conjunct1] g [THEN conjunct2] u)
  have l: "\<exists>s'. update 1 exampleRedacting = Inr s' \<and> timer s' = 0 \<and> phase s' = Scoring
          \<and> totalScore s' = totalScore exampleRedacting + roundScore s'
          \<and> update 1 s' = Inr s'"
    using u f by blast
  from h k29 k30 g l show ?thesis by (intro conjI) (elim conjE, assumption)+
qed

text \<open>
  C4. For a layout with positive \<open>drawWidth\<close> and \<open>drawHeight\<close>, \<open>screenToDocument\<close> returns
  the point \<open>((p.x - offsetX) / drawWidth, (p.y - offsetY) / drawHeight)\<close> when both
  coordinates lie in \<open>[0, 1]\<close> and nothing otherwise; so, along every run of events
  whose layouts have positive sizes, from a scene as the constructor leaves it, every
  recorded stroke point lies in the unit square.
\<close>

theorem C4_screenToDocument:
  assumes "0 < drawWidth L" and "0 < drawHeight L"
  shows "screenToDocument L p =
     (if 0 \<le> (pt_x p - offsetX L) / drawWidth L \<and> (pt_x p - offsetX L) / drawWidth L \<le> 1 \<and>
         0 \<le> (pt_y p - offsetY L) / drawHeight L \<and> (pt_y p - offsetY L) / drawHeight L \<le> 1
      then Some \<lparr>pt_x = (pt_x p - offsetX L) / drawWidth L, pt_y = (pt_y p - offsetY L) / drawHeight L\<rparr>
      else None)
    \<and> (\<forall>fill es s s'. strokesInDocument s \<longrightarrow> list_all positiveSizes es \<longrightarrow>
          run fill es s = Inr s' \<longrightarrow> list_all inUnitSquare (strokes s'))
    \<and> (\<forall>ms s0. new_GameScene ms = Inr s0 \<longrightarrow> strokesInDocument s0)"
proof (intro conjI allI impI)
  show "screenToDocument L p =
     (if 0 \<le> (pt_x p - offsetX L) / drawWidth L \<and> (pt_x p - offsetX L) / drawWidth L \<le> 1 \<and>
         0 \<le> (pt_y p - offsetY L) / drawHeight L \<and> (pt_y p - offsetY L) / drawHeight L \<le> 1
      then Some \<lparr>pt_x = (pt_x p - offsetX L) / drawWidth L, pt_y = (pt_y p - offsetY L) / drawHeight L\<rparr>
      else None)"
    by (rule screenToDocument_eq)
next
  fix fill es s s'
  assume "strokesInDocument s" "list_all positiveSizes es" "run fill es s = Inr s'"
  then have "strokesInDocument s'" by (rule run_inv)
  then show "list_all inUnitSquare (strokes s')" by (simp add: strokesInDocument_def)
next
  fix ms s0
  assume "new_GameScene ms = Inr s0"
  then show "strokesInDocument s0" by (rule new_GameScene_inv)
qed

theorem C4_screenToDocument_witness:
  "0 < drawWidth \<lparr>scale = 2, offsetX = 0, offsetY = 0, drawWidth = 16, drawHeight = 16\<rparr>
   \<and> 0 < drawHeight \<lparr>scale = 2, offsetX = 0, offsetY = 0, drawWidth = 16, drawHeight = 16\<rparr>
   \<and> screenToDocument \<lparr>scale = 2, offsetX = 0, offsetY = 0, drawWidth = 16, drawHeight = 16\<rparr>
        \<lparr>pt_x = 4, pt_y = 8\<rparr> = Some \<lparr>pt_x = 1 / 4, pt_y = 1 / 2\<rparr>
   \<and> screenToDocument \<lparr>scale = 2, offsetX = 0, offsetY = 0, drawWidth = 16, drawHeight = 16\<rparr>
        \<lparr>pt_x = 20, pt_y = 8\<rparr> = None
   \<and> strokesInDocument exampleRedacting
   \<and> (\<exists>s'. run exampleFill [PointerMove \<lparr>pt_x = 4, pt_y = 8\<rparr>, PointerMove \<lparr>pt_x = 20, pt_y = 8\<rparr>]
              exampleRedacting = Inr s'
          \<and> strokes s' = [\<lparr>pt_x = 1 / 4, pt_y = 1 / 2\<rparr>]
          \<and> list_all inUnitSquare (strokes s'))"
proof -
  let ?L = "\<lparr>scale = 2, offsetX = 0, offsetY = 0, drawWidth = 16, drawHeight = 16\<rparr>"
  have h: "0 < drawWidth ?L" "0 < drawHeight ?L" by simp_all
  have i: "strokesInDocument exampleRedacting"
    by (simp add: strokesInDocument_def exampleRedacting_def exampleScene_def positiveLayout_def)
  have e: "list_all positiveSizes [PointerMove \<lparr>pt_x = 4, pt_y = 8\<rparr>, PointerMove \<lparr>pt_x = 20, pt_y = 8\<rparr>]"
    by simp
  from example_moves obtain s'
    where r: "run exampleFill [PointerMove \<lparr>pt_x = 4, pt_y = 8\<rparr>, PointerMove \<lparr>pt_x = 20, pt_y = 8\<rparr>]
                exampleRedacting = Inr s'"
      and s: "strokes s' = [\<lparr>pt_x = 1 / 4, pt_y = 1 / 2\<rparr>]" by blast
  have a: "screenToDocument ?L \<lparr>pt_x = 4, pt_y = 8\<rparr> = Some \<lparr>pt_x = 1 / 4, pt_y = 1 / 2\<rparr>"
    using C4_screenToDocument [OF h, of "\<lparr>pt_x = 4, pt_y = 8\<rparr>"] by simp
  have b: "screenToDocument ?L \<lparr>pt_x = 20, pt_y = 8\<rparr> = None"
    using C4_screenToDocument [OF h, of "\<lparr>pt_x = 20, pt_y = 8\<rparr>"] by simp
  have "list_all inUnitSquare (strokes s')"
    using C4_screenToDocument [OF h, of "\<lparr>pt_x = 4, pt_y = 8\<rparr>"] i e r by blast
  with h i r s a b show ?thesis by blast
qed

text \<open>
  C5. Round trip: for a layout with positive \<open>drawWidth\<close> and \<open>drawHeight\<close>, a screen point
  that \<open>screenToDocument\<close> maps into the document is mapped back to itself by
  \<open>documentToScreen\<close> (exactly, in exact arithmetic).
\<close>

theorem C5_round_trip:
  assumes "0 < drawWidth L" and "0 < drawHeight L" and "screenToDocument L p = Some d"
  shows "documentToScreen L d = p"
  using assms by (auto simp: screenToDocument_eq documentToScreen_def split: if_splits)

theorem C5_round_trip_witness:
  "0 < drawWidth \<lparr>scale = 2, offsetX = 3, offsetY = 5, drawWidth = 16, drawHeight = 16\<rparr>
   \<and> 0 < drawHeight \<lparr>scale = 2, offsetX = 3, offsetY = 5, drawWidth = 16, drawHeight = 16\<rparr>
   \<and> screenToDocument \<lparr>scale = 2, offsetX = 3, offsetY = 5, drawWidth = 16, drawHeight = 16\<rparr>
        \<lparr>pt_x = 7, pt_y = 13\<rparr> = Some \<lparr>pt_x = 1 / 4, pt_y = 1 / 2\<rparr>
   \<and> documentToScreen \<lparr>scale = 2, offsetX = 3, offsetY = 5, drawWidth = 16, drawHeight = 16\<rparr>
        \<lparr>pt_x = 1 / 4, pt_y = 1 / 2\<rparr> = \<lparr>pt_x = 7, pt_y = 13\<rparr>"
proof -
  let ?L = "\<lparr>scale = 2, offsetX = 3, offsetY = 5, drawWidth = 16, drawHeight = 16\<rparr>"
  have h: "0 < drawWidth ?L" "0 < drawHeight ?L" by simp_all
  have a: "screenToDocument ?L \<lparr>pt_x = 7, pt_y = 13\<rparr> = Some \<lparr>pt_x = 1 / 4, pt_y = 1 / 2\<rparr>"
    by (simp add: screenToDocument_def)
  from C5_round_trip [OF h a] h a show ?thesis by blast
qed

text \<open>
  C8, as stated, fails. \<open>onPointerDown\<close> tests the continue button first, and \<open>drawUI\<close>
  puts the two buttons, 40 high, at 0.5 and 0.57 of the height of the UI layer: on a
  layer lower than 572 they overlap, the exit button drawn last, on top. On a layer of
  400 by 500 a press at \<open>(200, 268)\<close> is on the exit button, and the scene loads the next
  mask: the total stays 45 and \<open>onExit\<close> is not called. And in the program as the entry
  point wires it, the callback is entered more than once for one exit: on a call stack
  with room for 10000 calls, 5000 times.
\<close>

theorem C8_exit_to_menu_counterexample:
  "phase exampleLow = Scoring
   \<and> hits (exitButton exampleLow) \<lparr>pt_x = 200, pt_y = 268\<rparr>
   \<and> onPointerDown exampleFill \<lparr>pt_x = 200, pt_y = 268\<rparr> exampleLow = loadNextMask exampleLow
   \<and> map_sum id totalScore (loadNextMask exampleLow) = Inr 45
   \<and> map_sum id onExit_calls (loadNextMask exampleLow) = Inr 0
   \<and> wired_exitGame 10000 exampleApp =
       Returned (exampleApp\<lparr>app_scene := exitGame exampleScene, app_notified := 5000,
                            app_current := Some MenuSceneId\<rparr>)"
  by (intro conjI exampleLow_buttons exampleLow_continue exampleLow_next exampleApp_exit)

text \<open>
  C8, amended. In the Scoring phase, a pointer press on the exit button and off the
  continue button runs \<open>exitGame\<close>: the total and the round score become 0, the stroke
  list is empty, the coverage raster is cleared, the phase is Prompt, and \<open>exitGame\<close>
  calls \<open>onExit\<close>. A press on the continue button, also one that is on the exit button
  as well, loads the next mask and leaves the scores and \<open>onExit\<close> alone. With the
  buttons where \<open>drawUI\<close> puts them on a layer of height \<open>h\<close>, no point of the exit button
  is on the continue button when \<open>7 * h > 4000\<close>, and some are otherwise. In the program
  as the entry point wires it, on a call stack with room for at least four calls, the
  exit returns with the scene reset, the menu scene current and the callback entered.
\<close>

theorem C8_exit_to_menu:
  assumes "phase s = Scoring"
  shows "(hits (exitButton s) p \<and> \<not> hits (continueButton s) p \<longrightarrow>
            onPointerDown fill p s = Inr (exitGame s)
            \<and> totalScore (exitGame s) = 0 \<and> roundScore (exitGame s) = 0
            \<and> strokes (exitGame s) = []
            \<and> (\<forall>k. cv_bytes (coverageCanvas (exitGame s)) k = 0)
            \<and> phase (exitGame s) = Prompt
            \<and> onExit_calls (exitGame s) = onExit_calls s + 1)
    \<and> (hits (continueButton s) p \<longrightarrow>
          onPointerDown fill p s = loadNextMask s
          \<and> (\<forall>s'. loadNextMask s = Inr s' \<longrightarrow>
                totalScore s' = totalScore s \<and> roundScore s' = roundScore s
                \<and> onExit_calls s' = onExit_calls s))
    \<and> (4000 < 7 * h \<and> hits (exitButton (drawUI w h s)) p \<longrightarrow>
          \<not> hits (continueButton (drawUI w h s)) p)
    \<and> (0 \<le> h \<and> 7 * h \<le> 4000 \<longrightarrow>
          hits (exitButton (drawUI w h s)) \<lparr>pt_x = w / 2, pt_y = h / 2 + 20\<rparr>
          \<and> hits (continueButton (drawUI w h s)) \<lparr>pt_x = w / 2, pt_y = h / 2 + 20\<rparr>)
    \<and> (app_scene a = s \<and> app_current a = Some GameSceneId \<and> 4 \<le> d \<longrightarrow>
          (\<exists>a'. wired_exitGame d a = Returned a' \<and> app_scene a' = exitGame s
                \<and> app_current a' = Some MenuSceneId \<and> app_notified a < app_notified a'))"
proof (intro conjI impI)
  assume "hits (exitButton s) p \<and> \<not> hits (continueButton s) p"
  with assms show "onPointerDown fill p s = Inr (exitGame s)"
    by (simp add: onPointerDown_def)
next
  show "totalScore (exitGame s) = 0" "roundScore (exitGame s) = 0" "strokes (exitGame s) = []"
    "\<forall>k. cv_bytes (coverageCanvas (exitGame s)) k = 0" "phase (exitGame s) = Prompt"
    "onExit_calls (exitGame s) = onExit_calls s + 1"
    by (simp_all add: exitGame_def clearRect_def)
next
  assume "hits (continueButton s) p"
  with assms show "onPointerDown fill p s = loadNextMask s"
    by (simp add: onPointerDown_def)
next
  show "\<forall>s'. loadNextMask s = Inr s' \<longrightarrow>
          totalScore s' = totalScore s \<and> roundScore s' = roundScore s
          \<and> onExit_calls s' = onExit_calls s"
    using loadNextMask_scores by blast
next
  assume "4000 < 7 * h \<and> hits (exitButton (drawUI w h s)) p"
  then show "\<not> hits (continueButton (drawUI w h s)) p"
    unfolding drawUI_buttons [OF assms] by linarith
next
  assume "0 \<le> h \<and> 7 * h \<le> 4000"
  then show "hits (exitButton (drawUI w h s)) \<lparr>pt_x = w / 2, pt_y = h / 2 + 20\<rparr>"
    and "hits (continueButton (drawUI w h s)) \<lparr>pt_x = w / 2, pt_y = h / 2 + 20\<rparr>"
    unfolding drawUI_buttons [OF assms] by simp_all
next
  assume w: "app_scene a = s \<and> app_current a = Some GameSceneId \<and> 4 \<le> d"
  then have "wired_exitGame d a =
         Returned (a\<lparr>app_scene := exitGame (app_scene a),
                    app_notified := app_notified a + (d + 1) div 2,
                    app_current := Some MenuSceneId\<rparr>)"
    by (intro wired_exitGame_returns) simp_all
  moreover have "0 < (d + 1) div 2" using w by simp
  ultimately show "\<exists>a'. wired_exitGame d a = Returned a' \<and> app_scene a' = exitGame s
                \<and> app_current a' = Some MenuSceneId \<and> app_notified a < app_notified a'"
    using w by simp
qed

theorem C8_exit_to_menu_witness:
  "phase exampleScene = Scoring
   \<and> hits (exitButton exampleScene) \<lparr>pt_x = 200, pt_y = 570\<rparr>
   \<and> \<not> hits (continueButton exampleScene) \<lparr>pt_x = 200, pt_y = 570\<rparr>
   \<and> onPointerDown exampleFill \<lparr>pt_x = 200, pt_y = 570\<rparr> exampleScene = Inr (exitGame exampleScene)
   \<and> totalScore exampleScene = 45 \<and> totalScore (exitGame exampleScene) = 0
   \<and> roundScore (exitGame exampleScene) = 0 \<and> strokes (exitGame exampleScene) = []
   \<and> (\<forall>k. cv_bytes (coverageCanvas (exitGame exampleScene)) k = 0)
   \<and> phase (exitGame exampleScene) = Prompt
   \<and> onExit_calls exampleScene = 0 \<and> onExit_calls (exitGame exampleScene) = 1
   \<and> hits (continueButton exampleScene) \<lparr>pt_x = 200, pt_y = 500\<rparr>
   \<and> onPointerDown exampleFill \<lparr>pt_x = 200, pt_y = 500\<rparr> exampleScene = loadNextMask exampleScene
   \<and> (4000::real) < 7 * 1000
   \<and> hits (exitButton (drawUI 400 1000 exampleScene)) \<lparr>pt_x = 200, pt_y = 570\<rparr>
   \<and> \<not> hits (continueButton (drawUI 400 1000 exampleScene)) \<lparr>pt_x = 200, pt_y = 570\<rparr>
   \<and> (0::real) \<le> 500 \<and> (7::real) * 500 \<le> 4000
   \<and> hits (exitButton (drawUI 400 500 exampleScene)) \<lparr>pt_x = 200, pt_y = 270\<rparr>
   \<and> hits (continueButton (drawUI 400 500 exampleScene)) \<lparr>pt_x = 200, pt_y = 270\<rparr>
   \<and> app_scene exampleApp = exampleScene \<and> app_current exampleApp = Some GameSceneId
   \<and> (\<exists>a'. wired_exitGame 10000 exampleApp = Returned a' \<and> app_scene a' = exitGame exampleScene
          \<and> app_current a' = Some MenuSceneId \<and> app_notified exampleApp < app_notified a')"
proof -
  let ?p = "\<lparr>pt_x = 200, pt_y = 570\<rparr>"
  let ?q = "\<lparr>pt_x = 200, pt_y = 500\<rparr>"
  have ph: "phase exampleScene = Scoring" by (simp add: exampleScene_def)
  have h: "hits (exitButton exampleScene) ?p \<and> \<not> hits (continueButton exampleScene) ?p"
    by (simp add: exampleScene_def hits_def pointInRect_def)
  have g: "hits (continueButton exampleScene) ?q"
    by (simp add: exampleScene_def hits_def pointInRect_def)
  have t: "totalScore exampleScene = 45" "onExit_calls exampleScene = 0"
    by (simp_all add: exampleScene_def)
  have u: "hits (exitButton (drawUI 400 1000 exampleScene)) ?p"
    by (simp add: drawUI_buttons [OF ph])
  have n: "(4000::real) < 7 * 1000" "(0::real) \<le> 500 \<and> (7::real) * 500 \<le> 4000" by simp_all
  have ap: "app_scene exampleApp = exampleScene \<and> app_current exampleApp = Some GameSceneId
            \<and> (4::nat) \<le> 10000"
    by (simp add: exampleApp_def)
  note c1 = C8_exit_to_menu [OF ph, of ?p exampleFill 1000 400 exampleApp 10000]
  note c2 = C8_exit_to_menu [OF ph, of ?q exampleFill 500 400 exampleApp 10000]
  have a: "onPointerDown exampleFill ?p exampleScene = Inr (exitGame exampleScene)
            \<and> totalScore (exitGame exampleScene) = 0 \<and> roundScore (exitGame exampleScene) = 0
            \<and> strokes (exitGame exampleScene) = []
            \<and> (\<forall>k. cv_bytes (coverageCanvas (exitGame exampleScene)) k = 0)
            \<and> phase (exitGame exampleScene) = Prompt
            \<and> onExit_calls (exitGame exampleScene) = onExit_calls exampleScene + 1"
    using c1 [THEN conjunct1] h by blast
  have b: "onPointerDown exampleFill ?q exampleScene = loadNextMask exampleScene"
    using c2 [THEN conjunct2, THEN conjunct1] g by blast
  have c: "\<not> hits (continueButton (drawUI 400 1000 exampleScene)) ?p"
    using c1 [THEN conjunct2, THEN conjunct2, THEN conjunct1] n(1) u by blast
  have d: "hits (exitButton (drawUI 400 500 exampleScene)) \<lparr>pt_x = 400 / 2, pt_y = 500 / 2 + 20\<rparr>
           \<and> hits (continueButton (drawUI 400 500 exampleScene)) \<lparr>pt_x = 400 / 2, pt_y = 500 / 2 + 20\<rparr>"
    using c2 [THEN conjunct2, THEN conjunct2, THEN conjunct2, THEN conjunct1] n(2) by blast
  have e: "\<exists>a'. wired_exitGame 10000 exampleApp = Returned a' \<and> app_scene a' = exitGame exampleScene
          \<and> app_current a' = Some MenuSceneId \<and> app_notified exampleApp < app_notified a'"
    using c1 [THEN conjunct2, THEN conjunct2, THEN conjunct2, THEN conjunct2] ap by blast
  from d have d': "hits (exitButton (drawUI 400 500 exampleScene)) \<lparr>pt_x = 200, pt_y = 270\<rparr>
           \<and> hits (continueButton (drawUI 400 500 exampleScene)) \<lparr>pt_x = 200, pt_y = 270\<rparr>"
    by simp
  from a t have a': "onPointerDown exampleFill ?p exampleScene = Inr (exitGame exampleScene)
            \<and> totalScore exampleScene = 45 \<and> totalScore (exitGame exampleScene) = 0
            \<and> roundScore (exitGame exampleScene) = 0 \<and> strokes (exitGame exampleScene) = []
            \<and> (\<forall>k. cv_bytes (coverageCanvas (exitGame exampleScene)) k = 0)
            \<and> phase (exitGame exampleScene) = Prompt
            \<and> onExit_calls exampleScene = 0 \<and> onExit_calls (exitGame exampleScene) = 1"
    by simp
  from ph h a' g b n(1) u c n(2) d' ap e show ?thesis
    by (intro conjI) (elim conjE, assumption)+
qed

text \<open>
  C9. The score does not depend on the layout. Two scenes that differ in their layout
  only, fed pointer moves that map to the same normalized points under their layouts,
  record the same strokes and the same coverage raster, and \<open>calculateScore\<close> and
  \<open>finishRound\<close> give the same scores. The raster takes its size from the loaded image,
  whatever the container, and a resize leaves it alone.
\<close>

theorem C9_score_independent_of_layout:
  assumes "layout s = Some L1"
    and "map (screenToDocument L1) ps1 = map (screenToDocument L2) ps2"
    and "run fill (map PointerMove ps1) s = Inr s1"
  shows "\<exists>s2. run fill (map PointerMove ps2) (s\<lparr>layout := Some L2\<rparr>) = Inr s2
         \<and> strokes s2 = strokes s1 \<and> coverageCanvas s2 = coverageCanvas s1
         \<and> calculateScore s2 = calculateScore s1
         \<and> (\<forall>t1. finishRound s1 = Inr t1 \<longrightarrow>
               (\<exists>t2. finishRound s2 = Inr t2 \<and> roundScore t2 = roundScore t1
                     \<and> totalScore t2 = totalScore t1))
         \<and> coverageCanvas (onload natW natH rw rh s) = resizeCanvas natW natH
         \<and> coverageCanvas (onResize rw rh s) = coverageCanvas s"
proof -
  have r: "run fill (map PointerMove ps2) (s\<lparr>layout := Some L2\<rparr>) = Inr (s1\<lparr>layout := Some L2\<rparr>)"
    by (rule moves_layout [OF assms])
  have f: "\<exists>t2. finishRound (s1\<lparr>layout := Some L2\<rparr>) = Inr t2 \<and> roundScore t2 = roundScore t1
                     \<and> totalScore t2 = totalScore t1"
    if "finishRound s1 = Inr t1" for t1
    using finishRound_layout [OF that, of "Some L2"] by simp
  have c: "coverageCanvas (onload natW natH rw rh s) = resizeCanvas natW natH"
    by (simp add: onload_def Let_def)
  have d: "coverageCanvas (onResize rw rh s) = coverageCanvas s"
    by (simp add: onResize_def)
  show ?thesis
    using r f c d by (intro exI [of _ "s1\<lparr>layout := Some L2\<rparr>"]) (simp add: calculateScore_layout)
qed

theorem C9_score_independent_of_layout_witness:
  "layout exampleRedacting = Some \<lparr>scale = 2, offsetX = 0, offsetY = 0, drawWidth = 16, drawHeight = 16\<rparr>
   \<and> map (screenToDocument \<lparr>scale = 2, offsetX = 0, offsetY = 0, drawWidth = 16, drawHeight = 16\<rparr>)
        [\<lparr>pt_x = 4, pt_y = 8\<rparr>, \<lparr>pt_x = 20, pt_y = 8\<rparr>]
      = map (screenToDocument \<lparr>scale = 4, offsetX = 10, offsetY = 0, drawWidth = 32, drawHeight = 32\<rparr>)
        [\<lparr>pt_x = 18, pt_y = 16\<rparr>, \<lparr>pt_x = 50, pt_y = 16\<rparr>]
   \<and> (\<exists>s1 s2.
         run exampleFill (map PointerMove [\<lparr>pt_x = 4, pt_y = 8\<rparr>, \<lparr>pt_x = 20, pt_y = 8\<rparr>])
           exampleRedacting = Inr s1
         \<and> run exampleFill (map PointerMove [\<lparr>pt_x = 18, pt_y = 16\<rparr>, \<lparr>pt_x = 50, pt_y = 16\<rparr>])
             (exampleRedacting
                \<lparr>layout := Some \<lparr>scale = 4, offsetX = 10, offsetY = 0, drawWidth = 32, drawHeight = 32\<rparr>\<rparr>)
           = Inr s2
         \<and> strokes s1 = [\<lparr>pt_x = 1 / 4, pt_y = 1 / 2\<rparr>] \<and> strokes s2 = strokes s1
         \<and> coverageCanvas s2 = coverageCanvas s1 \<and> calculateScore s2 = calculateScore s1)"
proof -
  let ?L1 = "\<lparr>scale = 2, offsetX = 0, offsetY = 0, drawWidth = 16, drawHeight = 16\<rparr>"
  let ?L2 = "\<lparr>scale = 4, offsetX = 10, offsetY = 0, drawWidth = 32, drawHeight = 32\<rparr>"
  have l: "layout exampleRedacting = Some ?L1"
    by (simp add: exampleRedacting_def exampleScene_def)
  have m: "map (screenToDocument ?L1) [\<lparr>pt_x = 4, pt_y = 8\<rparr>, \<lparr>pt_x = 20, pt_y = 8\<rparr>]
      = map (screenToDocument ?L2) [\<lparr>pt_x = 18, pt_y = 16\<rparr>, \<lparr>pt_x = 50, pt_y = 16\<rparr>]"
    by (simp add: screenToDocument_def)
  from example_moves obtain s1
    where r: "run exampleFill (map PointerMove [\<lparr>pt_x = 4, pt_y = 8\<rparr>, \<lparr>pt_x = 20, pt_y = 8\<rparr>])
                exampleRedacting = Inr s1"
      and s: "strokes s1 = [\<lparr>pt_x = 1 / 4, pt_y = 1 / 2\<rparr>]" by auto
  from C9_score_independent_of_layout [OF l m r, of 8 8 16 16] l m r s show ?thesis by blast
qed

text \<open>
  C10. \<open>totalScore\<close> never decreases across an update or a pointer event, except at the
  two resets (\<open>exitGame\<close> and \<open>resetGame\<close>), which set it to 0. \<open>calculateScore\<close> is never
  negative, \<open>finishRound\<close> adds exactly its value, and along a run without a reset the
  total grows by the sum of the round scores completed, none of them negative.
\<close>

theorem C10_totalScore_monotone:
  "(dispatch fill e s = Inr s' \<and> \<not> resets e s \<longrightarrow> totalScore s \<le> totalScore s')
   \<and> (dispatch fill e s = Inr s' \<and> resets e s \<longrightarrow> totalScore s' = 0)
   \<and> (calculateScore s = Inr v \<longrightarrow> 0 \<le> v)
   \<and> (finishRound s = Inr s' \<longrightarrow>
        calculateScore (s\<lparr>phase := Scoring\<rparr>) = Inr (roundScore s')
        \<and> totalScore s' = totalScore s + roundScore s')
   \<and> (run fill es s = Inr s' \<and> noReset fill es s \<longrightarrow>
        totalScore s' = totalScore s + sum_list (roundScores fill es s)
        \<and> list_all (\<lambda>v. 0 \<le> v) (roundScores fill es s)
        \<and> totalScore s \<le> totalScore s')"
proof (intro conjI impI)
  assume a: "dispatch fill e s = Inr s' \<and> \<not> resets e s"
  then have "totalScore s' =
           totalScore s + (if phase s = Redacting \<and> phase s' = Scoring then roundScore s' else 0)
         \<and> (phase s = Redacting \<and> phase s' = Scoring \<longrightarrow> 0 \<le> roundScore s')"
    using dispatch_total [of fill e s s'] by blast
  then show "totalScore s \<le> totalScore s'" by (simp split: if_splits)
next
  assume "dispatch fill e s = Inr s' \<and> resets e s"
  then show "totalScore s' = 0" using dispatch_reset_zero by blast
next
  assume "calculateScore s = Inr v"
  then show "0 \<le> v" by (rule calculateScore_nonneg)
next
  assume f: "finishRound s = Inr s'"
  from finishRound_result [OF f]
  show "calculateScore (s\<lparr>phase := Scoring\<rparr>) = Inr (roundScore s')"
    and "totalScore s' = totalScore s + roundScore s'" by simp_all
next
  assume r: "run fill es s = Inr s' \<and> noReset fill es s"
  then have t: "totalScore s' = totalScore s + sum_list (roundScores fill es s)
         \<and> list_all (\<lambda>v. 0 \<le> v) (roundScores fill es s)"
    using run_total [of fill es s s'] by blast
  then show "totalScore s' = totalScore s + sum_list (roundScores fill es s)"
    and "list_all (\<lambda>v. 0 \<le> v) (roundScores fill es s)" by simp_all
  from t have "0 \<le> sum_list (roundScores fill es s)"
    by (intro sum_list_nonneg) (simp add: list_all_iff)
  with t show "totalScore s \<le> totalScore s'" by simp
qed

theorem C10_totalScore_monotone_witness:
  "\<not> resets (Update 1) exampleRedacting
   \<and> (\<exists>s'. dispatch exampleFill (Update 1) exampleRedacting = Inr s'
          \<and> totalScore exampleRedacting = 45 \<and> totalScore s' = 65
          \<and> totalScore exampleRedacting \<le> totalScore s'
          \<and> run exampleFill [Update 1] exampleRedacting = Inr s'
          \<and> noReset exampleFill [Update 1] exampleRedacting
          \<and> roundScores exampleFill [Update 1] exampleRedacting = [20]
          \<and> totalScore s'
              = totalScore exampleRedacting + sum_list (roundScores exampleFill [Update 1] exampleRedacting))
   \<and> resets (PointerDown \<lparr>pt_x = 200, pt_y = 570\<rparr>) exampleScene
   \<and> (\<exists>s'. dispatch exampleFill (PointerDown \<lparr>pt_x = 200, pt_y = 570\<rparr>) exampleScene = Inr s'
          \<and> totalScore s' = 0)"
proof -
  from example_last_tick obtain s' where u: "update 1 exampleRedacting = Inr s'"
    and f: "phase s' = Scoring" "roundScore s' = 20" "totalScore s' = 65" by blast
  have p: "phase exampleRedacting = Redacting" "totalScore exampleRedacting = 45"
    by (simp_all add: exampleRedacting_def exampleScene_def)
  have d: "dispatch exampleFill (Update 1) exampleRedacting = Inr s'" using u by simp
  have r: "run exampleFill [Update 1] exampleRedacting = Inr s'" using u by simp
  have n: "noReset exampleFill [Update 1] exampleRedacting" using u by simp
  have rs: "roundScores exampleFill [Update 1] exampleRedacting = [20]" using u p f by simp
  have x: "resets (PointerDown \<lparr>pt_x = 200, pt_y = 570\<rparr>) exampleScene"
    by (simp add: activatesExit_def exampleScene_def hits_def pointInRect_def)
  then have y: "dispatch exampleFill (PointerDown \<lparr>pt_x = 200, pt_y = 570\<rparr>) exampleScene
                = Inr (exitGame exampleScene)"
    by (simp add: onPointerDown_def activatesExit_def)
  note c1 = C10_totalScore_monotone [of exampleFill "Update 1" exampleRedacting s' 0 "[Update 1]"]
  note c2 = C10_totalScore_monotone [of exampleFill "PointerDown \<lparr>pt_x = 200, pt_y = 570\<rparr>"
      exampleScene "exitGame exampleScene" 0 "[]"]
  have nr: "\<not> resets (Update 1) exampleRedacting" by simp
  have a: "totalScore exampleRedacting \<le> totalScore s'"
    using c1 [THEN conjunct1] d nr by blast
  have b: "totalScore s'
              = totalScore exampleRedacting + sum_list (roundScores exampleFill [Update 1] exampleRedacting)"
    using c1 [THEN conjunct2, THEN conjunct2, THEN conjunct2, THEN conjunct2] r n by blast
  have z: "totalScore (exitGame exampleScene) = 0"
    using c2 [THEN conjunct2, THEN conjunct1] x y by blast
  have e1: "\<exists>s'. dispatch exampleFill (Update 1) exampleRedacting = Inr s'
          \<and> totalScore exampleRedacting = 45 \<and> totalScore s' = 65
          \<and> totalScore exampleRedacting \<le> totalScore s'
          \<and> run exampleFill [Update 1] exampleRedacting = Inr s'
          \<and> noReset exampleFill [Update 1] exampleRedacting
          \<and> roundScores exampleFill [Update 1] exampleRedacting = [20]
          \<and> totalScore s'
              = totalScore exampleRedacting + sum_list (roundScores exampleFill [Update 1] exampleRedacting)"
    using d p(2) f(3) a r n rs b by blast
  have e2: "\<exists>s'. dispatch exampleFill (PointerDown \<lparr>pt_x = 200, pt_y = 570\<rparr>) exampleScene = Inr s'
          \<and> totalScore s' = 0"
    using y z by blast
  from nr e1 x e2 show ?thesis by (intro conjI)
qed

section \<open>Claim about the order of the masks\<close>

text \<open>
  C7, as stated, fails for \<open>GameScene\<close>: \<open>loadNextMask\<close> wraps the index and leaves the
  sequence as it is, and it draws no random number. At the end of a pass over two
  masks, the next pass presents them in the same order again.
\<close>

theorem C7_mask_sequencing_counterexample:
  "masks exampleWrap = [exampleMask, secondMask]
   \<and> currentMaskIndex exampleWrap = length (masks exampleWrap)
   \<and> presentedMasks 2 exampleWrap = [exampleMask, secondMask]
   \<and> presentedMasks 4 exampleWrap = [exampleMask, secondMask, exampleMask, secondMask]"
proof -
  have m: "masks exampleWrap = [exampleMask, secondMask]"
    and c: "currentMaskIndex exampleWrap = length (masks exampleWrap)"
    by (simp_all add: exampleWrap_def)
  have n: "masks exampleWrap \<noteq> []"
    "currentMaskIndex exampleWrap = 0 \<or> length (masks exampleWrap) \<le> currentMaskIndex exampleWrap"
    using m c by simp_all
  have l: "length (masks exampleWrap) = 2" using m by simp
  have f: "2 * length (masks exampleWrap) = 4" using l by simp
  have p1: "presentedMasks 2 exampleWrap = masks exampleWrap"
    using presentedMasks_pass(1) [OF n] unfolding l .
  have p2: "presentedMasks 4 exampleWrap = masks exampleWrap @ masks exampleWrap"
    using presentedMasks_pass(2) [OF n] unfolding f .
  show ?thesis unfolding p1 p2 by (simp add: m c)
qed

text \<open>
  C7, amended. In \<open>GameScene\<close>, a full pass of \<open>loadNextMask\<close> from the start of the
  sequence presents every mask exactly once, in the order of the sequence; at the end
  the index wraps to 0 and the next pass presents the same order again, since
  \<open>loadNextMask\<close> never changes the sequence (it was ordered once, in the constructor).
  In the earlier \<open>GameScene4\<close>, a pass of as many rounds as there are masks shows every
  mask once, in order, and the round end that wraps the index to 0 replaces the
  sequence by its \<open>shuffleMasks\<close>, a rearrangement of the same masks. Every order of
  distinct masks is the result of some random source, and two sources that give the
  same order made the same draws: with draws uniform and independent, every order is
  equally likely.
\<close>

theorem C7_mask_sequencing:
  "(masks s \<noteq> [] \<and> (currentMaskIndex s = 0 \<or> length (masks s) \<le> currentMaskIndex s) \<longrightarrow>
      presentedMasks (length (masks s)) s = masks s
      \<and> presentedMasks (2 * length (masks s)) s = masks s @ masks s)
   \<and> (loadNextMask s = Inr s' \<longrightarrow> masks s' = masks s)
   \<and> (masks s \<noteq> [] \<and> length (masks s) \<le> currentMaskIndex s \<longrightarrow>
        (\<exists>s1. loadNextMask s = Inr s1 \<and> currentMaskIndex s1 = 1
              \<and> maskCurrent s1 = Some (masks s ! 0)))
   \<and> (g4_currentMaskIndex t = 0 \<and> g4_allMasks t \<noteq> [] \<and> g4_mask t = Some (g4_allMasks t ! 0)
        \<and> length rnds = length (g4_allMasks t) \<and> rounds4 rnds t = Inr (shown, t') \<longrightarrow>
        shown = map Some (g4_allMasks t) \<and> g4_currentMaskIndex t' = 0
        \<and> g4_allMasks t' = shuffleMasks (last rnds) (g4_allMasks t)
        \<and> (unitInterval (last rnds) \<longrightarrow> mset (g4_allMasks t') = mset (g4_allMasks t)))
   \<and> (distinct ms \<and> mset ys = mset ms \<longrightarrow> (\<exists>rnd. unitInterval rnd \<and> shuffleMasks rnd ms = ys))
   \<and> (unitInterval rnd1 \<and> unitInterval rnd2 \<and> distinct ms
        \<and> shuffleMasks rnd1 ms = shuffleMasks rnd2 ms \<and> k < length ms - 1 \<longrightarrow>
        draw rnd1 k (length ms - 1 - k) = draw rnd2 k (length ms - 1 - k))"
proof (intro conjI impI)
  assume a: "masks s \<noteq> [] \<and> (currentMaskIndex s = 0 \<or> length (masks s) \<le> currentMaskIndex s)"
  then show "presentedMasks (length (masks s)) s = masks s"
    and "presentedMasks (2 * length (masks s)) s = masks s @ masks s"
    using presentedMasks_pass [of s] by blast+
next
  assume "loadNextMask s = Inr s'"
  then show "masks s' = masks s" by (rule loadNextMask_masks)
next
  assume a: "masks s \<noteq> [] \<and> length (masks s) \<le> currentMaskIndex s"
  then have "0 = (if currentMaskIndex s \<ge> length (masks s) then 0 else currentMaskIndex s)"
    and "0 < length (masks s)" by simp_all
  from loadNextMask_at [OF this]
  show "\<exists>s1. loadNextMask s = Inr s1 \<and> currentMaskIndex s1 = 1 \<and> maskCurrent s1 = Some (masks s ! 0)"
    by auto
next
  assume a: "g4_currentMaskIndex t = 0 \<and> g4_allMasks t \<noteq> [] \<and> g4_mask t = Some (g4_allMasks t ! 0)
        \<and> length rnds = length (g4_allMasks t) \<and> rounds4 rnds t = Inr (shown, t')"
  then have h: "g4_currentMaskIndex t = 0" "0 < length (g4_allMasks t)"
    "g4_mask t = Some (g4_allMasks t ! 0)" "0 + length rnds \<le> length (g4_allMasks t)"
    "rounds4 rnds t = Inr (shown, t')" and l: "length rnds = length (g4_allMasks t)"
    by simp_all
  from rounds4_pass [OF h] l
  show r: "shown = map Some (g4_allMasks t)" "g4_currentMaskIndex t' = 0"
    "g4_allMasks t' = shuffleMasks (last rnds) (g4_allMasks t)" by simp_all
  assume "unitInterval (last rnds)"
  then show "mset (g4_allMasks t') = mset (g4_allMasks t)"
    using r(3) by (simp add: mset_shuffleMasks)
next
  assume "distinct ms \<and> mset ys = mset ms"
  then show "\<exists>rnd. unitInterval rnd \<and> shuffleMasks rnd ms = ys"
    using shuffleMasks_reaches [of ms ys] by blast
next
  assume "unitInterval rnd1 \<and> unitInterval rnd2 \<and> distinct ms
        \<and> shuffleMasks rnd1 ms = shuffleMasks rnd2 ms \<and> k < length ms - 1"
  then show "draw rnd1 k (length ms - 1 - k) = draw rnd2 k (length ms - 1 - k)"
    using shuffleMasks_draws_determined [of rnd1 rnd2 ms k] by blast
qed

theorem C7_mask_sequencing_witness:
  "masks exampleWrap \<noteq> [] \<and> length (masks exampleWrap) \<le> currentMaskIndex exampleWrap
   \<and> presentedMasks (length (masks exampleWrap)) exampleWrap = masks exampleWrap
   \<and> (\<exists>s1. loadNextMask exampleWrap = Inr s1 \<and> masks s1 = masks exampleWrap
          \<and> currentMaskIndex s1 = 1 \<and> maskCurrent s1 = Some exampleMask)
   \<and> g4_currentMaskIndex exampleScene4 = 0 \<and> g4_allMasks exampleScene4 \<noteq> []
   \<and> g4_mask exampleScene4 = Some (g4_allMasks exampleScene4 ! 0)
   \<and> unitInterval (\<lambda>k. 0)
   \<and> (\<exists>shown t'. rounds4 [\<lambda>k. 0, \<lambda>k. 0] exampleScene4 = Inr (shown, t')
          \<and> shown = [Some exampleMask, Some secondMask] \<and> g4_currentMaskIndex t' = 0
          \<and> g4_allMasks t' = [secondMask, exampleMask]
          \<and> mset (g4_allMasks t') = mset (g4_allMasks exampleScene4))
   \<and> distinct [exampleMask, secondMask]
   \<and> mset [secondMask, exampleMask] = mset [exampleMask, secondMask]
   \<and> (\<exists>rnd. unitInterval rnd \<and> shuffleMasks rnd [exampleMask, secondMask] = [secondMask, exampleMask])
   \<and> unitInterval (\<lambda>k. 1 / 4)
   \<and> shuffleMasks (\<lambda>k. 0) [exampleMask, secondMask]
       = shuffleMasks (\<lambda>k. 1 / 4) [exampleMask, secondMask]
   \<and> draw (\<lambda>k. 0) 0 1 = draw (\<lambda>k. 1 / 4) 0 1"
proof -
  have m: "masks exampleWrap \<noteq> []" "length (masks exampleWrap) \<le> currentMaskIndex exampleWrap"
    and m0: "masks exampleWrap ! 0 = exampleMask"
    by (simp_all add: exampleWrap_def)
  have g: "g4_currentMaskIndex exampleScene4 = 0" "g4_allMasks exampleScene4 \<noteq> []"
    "g4_mask exampleScene4 = Some (g4_allMasks exampleScene4 ! 0)"
    and ga: "g4_allMasks exampleScene4 = [exampleMask, secondMask]"
    by (simp_all add: exampleScene4_def)
  have u: "unitInterval (\<lambda>k. 0)" by (simp add: unitInterval_def)
  from exampleScene4_pass obtain shown t'
    where r: "rounds4 [\<lambda>k. 0, \<lambda>k. 0] exampleScene4 = Inr (shown, t')" by blast
  from loadNextMask_at [of 0 exampleWrap] m obtain s1 where l: "loadNextMask exampleWrap = Inr s1"
    by auto
  note c = C7_mask_sequencing [of exampleWrap s1 exampleScene4 "[\<lambda>k. 0, \<lambda>k. 0]" shown t']
  have p: "presentedMasks (length (masks exampleWrap)) exampleWrap = masks exampleWrap"
    using c [THEN conjunct1] m by blast
  have k: "masks s1 = masks exampleWrap"
    using c [THEN conjunct2, THEN conjunct1] l by blast
  have w: "\<exists>s1. loadNextMask exampleWrap = Inr s1 \<and> currentMaskIndex s1 = 1
              \<and> maskCurrent s1 = Some (masks exampleWrap ! 0)"
    using c [THEN conjunct2, THEN conjunct2, THEN conjunct1] m by blast
  have w': "\<exists>s1. loadNextMask exampleWrap = Inr s1 \<and> masks s1 = masks exampleWrap
          \<and> currentMaskIndex s1 = 1 \<and> maskCurrent s1 = Some exampleMask"
    using w l k m0 by auto
  have "length [\<lambda>k. 0 :: real, \<lambda>k. 0] = length (g4_allMasks exampleScene4)" by (simp add: ga)
  with c [THEN conjunct2, THEN conjunct2, THEN conjunct2] g r u
  have q: "shown = map Some (g4_allMasks exampleScene4) \<and> g4_currentMaskIndex t' = 0
        \<and> g4_allMasks t' = shuffleMasks (last [\<lambda>k. 0, \<lambda>k. 0]) (g4_allMasks exampleScene4)
        \<and> (unitInterval (last [\<lambda>k. 0 :: real, \<lambda>k. 0]) \<longrightarrow>
             mset (g4_allMasks t') = mset (g4_allMasks exampleScene4))"
    by blast
  then have q': "shown = [Some exampleMask, Some secondMask] \<and> g4_currentMaskIndex t' = 0
          \<and> g4_allMasks t' = [secondMask, exampleMask]
          \<and> mset (g4_allMasks t') = mset (g4_allMasks exampleScene4)"
    using u by (simp add: ga example_shuffle)
  have e: "\<exists>shown t'. rounds4 [\<lambda>k. 0, \<lambda>k. 0] exampleScene4 = Inr (shown, t')
          \<and> shown = [Some exampleMask, Some secondMask] \<and> g4_currentMaskIndex t' = 0
          \<and> g4_allMasks t' = [secondMask, exampleMask]
          \<and> mset (g4_allMasks t') = mset (g4_allMasks exampleScene4)"
    using r q' by blast
  have dm: "distinct [exampleMask, secondMask]"
    by (simp add: exampleMask_def secondMask_def)
  have pm: "mset [secondMask, exampleMask] = mset [exampleMask, secondMask]" by simp
  have x: "\<exists>rnd. unitInterval rnd \<and> shuffleMasks rnd [exampleMask, secondMask] = [secondMask, exampleMask]"
    using c [THEN conjunct2, THEN conjunct2, THEN conjunct2, THEN conjunct2, THEN conjunct1,
        of "[exampleMask, secondMask]" "[secondMask, exampleMask]"] dm pm
    by blast
  have u4: "unitInterval (\<lambda>k. 1 / 4)" by (simp add: unitInterval_def)
  have sh: "shuffleMasks (\<lambda>k. 0) [exampleMask, secondMask]
       = shuffleMasks (\<lambda>k. 1 / 4) [exampleMask, secondMask]"
    by (simp add: shuffleMasks_def Let_def)
  have "(0::nat) < length [exampleMask, secondMask] - 1" by simp
  with c [THEN conjunct2, THEN conjunct2, THEN conjunct2, THEN conjunct2, THEN conjunct2,
        of "\<lambda>k. 0" "\<lambda>k. 1 / 4" "[exampleMask, secondMask]" 0] u u4 dm sh
  have dr: "draw (\<lambda>k. 0) 0 1 = draw (\<lambda>k. 1 / 4) 0 1" by simp
  from m p w' g u e dm pm x u4 sh dr show ?thesis by (intro conjI)
qed

end
